theory Spec2Isabelle
  imports Main "HOL-Library.AList"
begin

section \<open>Values, errors and the console\<close>

text \<open>
  Run-time values of the forwarder (\<open>TRequest\<close>, \<open>TInput\<close>, \<open>TOutput\<close> are erased type
  parameters in the source). Numbers are restricted to integers. \<open>truthy\<close> is the
  JavaScript conversion to boolean that every \<open>if (x)\<close>, \<open>!x\<close> and \<open>x ? a : b\<close> of the
  source applies.
\<close>

datatype jsval =
    Undefined
  | Null
  | JBool bool
  | JNum int
  | JStr string
  | JObj "(string \<times> jsval) list"
  | JArr "jsval list"

fun truthy :: "jsval \<Rightarrow> bool" where
  "truthy Undefined = False"
| "truthy Null = False"
| "truthy (JBool b) = b"
| "truthy (JNum n) = (n \<noteq> 0)"
| "truthy (JStr s) = (s \<noteq> [])"
| "truthy (JObj _) = True"
| "truthy (JArr _) = True"

text \<open>
  Thrown values. \<open>Error m\<close> is \<open>new Error(m)\<close>; \<open>HttpError st p t\<close> stands for the
  message \<open>`${st}: ${p}: ${t}`\<close> of \<open>defaultFetch\<close> and \<open>WebhookError st\<close> for
  \<open>`Webhook error: ${st}`\<close> of \<open>forwardToWebhook\<close>.
\<close>

datatype error =
    Error string
  | HttpError int string string
  | WebhookError int

text \<open>
  Console output. The first component is the subscription id printed as \<open>[id]\<close>.
  \<open>Info\<close> is \<open>console.log\<close>, \<open>Failure\<close> is \<open>console.error\<close> with the logged error, and
  \<open>Retrying i n\<close> is the line \<open>`[${id}] Retrying connection... attempt ${n}`\<close>.
\<close>

datatype log_entry =
    Info string string
  | Failure string string error
  | Retrying string nat

section \<open>Configuration (types.ts)\<close>

text \<open>
  A \<open>body\<close> is either a plain value or a promise, which settles to a value or rejects.
\<close>

datatype promised = Value jsval | Promise "error + jsval"

fun await :: "promised \<Rightarrow> error + jsval" where
  "await (Value v) = Inr v"
| "await (Promise r) = r"

text \<open>Truthiness of a \<open>body\<close>: a promise is an object, hence truthy.\<close>

fun promised_truthy :: "promised \<Rightarrow> bool" where
  "promised_truthy (Value v) = truthy v"
| "promised_truthy (Promise _) = True"

record RequestConfig =
  "method" :: "string option"
  headers :: "(string \<times> string) list option"
  body :: "promised option"

datatype source_type = websocket | poll | custom

text \<open>
  What a call of \<open>createStream\<close> does: it throws, or it returns a promise that rejects,
  resolves to an Observable, or resolves to a cleanup function (identified by a number).
\<close>

datatype factory_result =
    Throws error
  | Rejects error
  | ResolvesObservable
  | ResolvesFunction nat

text \<open>
  User callbacks may keep state and may throw (or return a rejected promise): they are
  functions on a world \<open>'w\<close> of the caller's own state, returning the new world.
  \<open>customFetch\<close> takes the three arguments that the polling tick passes to it.
\<close>

type_synonym ('w, 'a) call = "'w \<Rightarrow> (error + 'a) \<times> 'w"

record 'w ForwarderConfig =
  type :: source_type
  sourceUrl :: "string option"
  webhookUrl :: string
  requestConfig :: "RequestConfig option"
  pollInterval :: "int option"
  shouldFetch :: "(jsval \<Rightarrow> ('w, bool) call) option"
  customFetch :: "(string \<Rightarrow> string \<Rightarrow> RequestConfig \<Rightarrow> ('w, jsval) call) option"
  transform :: "(jsval \<Rightarrow> ('w, jsval) call) option"
  createStream :: "('w \<Rightarrow> factory_result \<times> 'w) option"

section \<open>Platform functions\<close>

text \<open>
  The global \<open>fetch\<close>, \<open>JSON.parse\<close>, \<open>JSON.stringify\<close> and \<open>new URL(u).pathname\<close> are
  parameters of the model.
\<close>

record request =
  req_url :: string
  req_method :: string
  req_headers :: "(string \<times> string) list"
  req_body :: "string option"

record response =
  status :: int
  text_of :: string

definition ok :: "response \<Rightarrow> bool" where
  "ok r = (200 \<le> status r \<and> status r \<le> 299)"

record 'w env =
  fetch :: "request \<Rightarrow> ('w, response) call"
  JSON_parse :: "string \<Rightarrow> error + jsval"
  JSON_stringify :: "jsval \<Rightarrow> string option"
  URL_pathname :: "string \<Rightarrow> error + string"

section \<open>utils.ts\<close>

definition mergeHeaders ::
  "(string \<times> string) list \<Rightarrow> (string \<times> string) list option \<Rightarrow> (string \<times> string) list"
where
  "mergeHeaders baseHeaders additionalHeaders =
     (case additionalHeaders of
        None \<Rightarrow> baseHeaders
      | Some hs \<Rightarrow> fold (\<lambda>(k, v) acc. AList.update k v acc) hs baseHeaders)"

definition validateInput :: "jsval \<Rightarrow> error + jsval" where
  "validateInput data =
     (if \<not> truthy data then Inl (Error ''Invalid input data'') else Inr data)"

section \<open>State of a forwarder\<close>

text \<open>
  \<open>private subs: Record<string, Subscription | (() => void)>\<close> is an association list in
  insertion order; its keys are the object's own properties (a key that names a member
  of \<open>Object.prototype\<close> is not modelled). A stored \<open>Subscription\<close> refers to a stream of
  the store \<open>streams\<close> by its index, so that the registry and the asynchronous callbacks
  share it.
\<close>

datatype handle = Subscription nat | CleanupFn nat

text \<open>
  The state of a running stream, by the way \<open>subscribe\<close> built it:
  \<^item> \<open>WebSocket connected soFar\<close>: the \<open>webSocket(...).pipe(catchError, retry)\<close> stream;
    \<open>connected\<close> says that a socket is open, \<open>soFar\<close> is the counter of \<open>retry\<close>;
  \<^item> \<open>Polling ticking inflight\<close>: the polling Observable; \<open>ticking\<close> says that the
    \<open>interval\<close> subscription is live, \<open>inflight\<close> holds the fetches that were started
    and have not settled yet, with what they settle to;
  \<^item> \<open>Setup p\<close>: the subscription to \<open>from(config.createStream())\<close>; \<open>p\<close> is the
    outcome of the promise until it has been delivered;
  \<^item> \<open>Custom\<close>: the subscription to the Observable that the factory resolved to.
\<close>

datatype source =
    WebSocket bool nat
  | Polling bool "(error + jsval) list"
  | Setup "factory_result option"
  | Custom

record 'w stream =
  s_owner :: string
  s_config :: "'w ForwarderConfig"
  s_closed :: bool
  s_source :: source

text \<open>
  Effects that are only observed: \<open>Teardown\<close> is the call of a recorded teardown by
  \<open>unsubscribe\<close>, \<open>Start\<close> the start of a stream by \<open>subscribe\<close>, \<open>Reconnect\<close> a
  resubscription of \<open>retry\<close> to the socket, \<open>TimerSet r ms\<close> a \<open>setTimeout\<close> of \<open>ms\<close>
  milliseconds by the retry notifier of stream \<open>r\<close>.
\<close>

datatype event =
    Teardown string handle
  | Start string nat
  | Reconnect nat
  | TimerSet nat nat

record 'w state =
  subs :: "(string \<times> handle) list"
  streams :: "'w stream list"
  world :: 'w
  console :: "log_entry list"
  requests :: "request list"
  gate_calls :: "(string \<times> jsval \<times> (error + bool)) list"
  trace :: "event list"

definition console_log :: "string \<Rightarrow> string \<Rightarrow> 'w state \<Rightarrow> 'w state" where
  "console_log sid msg s = s\<lparr>console := console s @ [Info sid msg]\<rparr>"

definition console_error :: "string \<Rightarrow> string \<Rightarrow> error \<Rightarrow> 'w state \<Rightarrow> 'w state" where
  "console_error sid msg e s = s\<lparr>console := console s @ [Failure sid msg e]\<rparr>"

text \<open>A call of the global \<open>fetch\<close>; every request is recorded in \<open>requests\<close>.\<close>

definition do_fetch :: "'w env \<Rightarrow> request \<Rightarrow> 'w state \<Rightarrow> (error + response) \<times> 'w state" where
  "do_fetch env rq s =
     (case fetch env rq (world s) of
        (r, w) \<Rightarrow> (r, s\<lparr>world := w, requests := requests s @ [rq]\<rparr>))"

section \<open>The event pipeline\<close>

text \<open>
  \<open>shouldProcessEvent\<close> (lines 35-54). Every call of \<open>config.shouldFetch\<close> is recorded in
  \<open>gate_calls\<close> with its argument and its outcome.
\<close>

definition resolvedBody :: "'w ForwarderConfig \<Rightarrow> error + jsval" where
  "resolvedBody cfg =
     (case requestConfig cfg of
        None \<Rightarrow> Inr Undefined
      | Some rc \<Rightarrow>
          (case body rc of
             None \<Rightarrow> Inr Undefined
           | Some b \<Rightarrow> if promised_truthy b then await b else Inr Undefined))"

definition shouldProcessEvent ::
  "string \<Rightarrow> 'w ForwarderConfig \<Rightarrow> 'w state \<Rightarrow> (error + bool) \<times> 'w state"
where
  "shouldProcessEvent sid cfg s =
     (case shouldFetch cfg of
        None \<Rightarrow> (Inr True, s)
      | Some gate \<Rightarrow>
          (case resolvedBody cfg of
             Inl e \<Rightarrow> (Inl e, s)
           | Inr ctx \<Rightarrow>
               (case gate ctx (world s) of
                  (r, w) \<Rightarrow>
                    (let s1 = s\<lparr>world := w, gate_calls := gate_calls s @ [(sid, ctx, r)]\<rparr>
                     in case r of
                          Inl e \<Rightarrow> (Inl e, s1)
                        | Inr should \<Rightarrow>
                            (Inr should,
                             if \<not> should
                             then console_log sid
                                    ''Skipping event processing based on shouldFetch condition'' s1
                             else s1)))))"

text \<open>\<open>forwardToWebhook\<close> (lines 184-205).\<close>

definition forwardToWebhook ::
  "'w env \<Rightarrow> string \<Rightarrow> string \<Rightarrow> jsval \<Rightarrow> 'w state \<Rightarrow> (error + unit) \<times> 'w state"
where
  "forwardToWebhook env sid url data s =
     (case do_fetch env
             \<lparr>req_url = url, req_method = ''POST'',
              req_headers = [(''Content-Type'', ''application/json'')],
              req_body = JSON_stringify env data\<rparr> s of
        (Inl e, s1) \<Rightarrow> (Inl e, console_error sid ''Error forwarding to webhook:'' e s1)
      | (Inr resp, s1) \<Rightarrow>
          if \<not> ok resp
          then (Inl (WebhookError (status resp)),
                console_error sid ''Error forwarding to webhook:'' (WebhookError (status resp)) s1)
          else (Inr (), s1))"

text \<open>
  The \<open>next\<close> callback that \<open>subscribe\<close> gives to every stream (lines 289-309, and the
  same text at lines 240-266): \<open>process_try\<close> is the body of its \<open>try\<close>,
  \<open>process_event\<close> adds the \<open>catch\<close>.
\<close>

definition apply_transform ::
  "'w ForwarderConfig \<Rightarrow> jsval \<Rightarrow> 'w state \<Rightarrow> (error + jsval) \<times> 'w state"
where
  "apply_transform cfg data s =
     (case transform cfg of
        None \<Rightarrow> (Inr data, s)
      | Some f \<Rightarrow> (case f data (world s) of (r, w) \<Rightarrow> (r, s\<lparr>world := w\<rparr>)))"

definition process_try ::
  "'w env \<Rightarrow> string \<Rightarrow> 'w ForwarderConfig \<Rightarrow> jsval \<Rightarrow> 'w state \<Rightarrow> (error + unit) \<times> 'w state"
where
  "process_try env sid cfg data s =
     (case shouldProcessEvent sid cfg s of
        (Inl e, s1) \<Rightarrow> (Inl e, s1)
      | (Inr should, s1) \<Rightarrow>
          if \<not> should
          then (Inr (), console_log sid ''Skipping process based on shouldFetch condition'' s1)
          else (case apply_transform cfg data s1 of
                  (Inl e, s2) \<Rightarrow> (Inl e, s2)
                | (Inr transformedData, s2) \<Rightarrow>
                    forwardToWebhook env sid (webhookUrl cfg) transformedData s2))"

definition process_event ::
  "'w env \<Rightarrow> string \<Rightarrow> 'w ForwarderConfig \<Rightarrow> jsval \<Rightarrow> 'w state \<Rightarrow> 'w state"
where
  "process_event env sid cfg data s =
     (case process_try env sid cfg data s of
        (Inl e, s1) \<Rightarrow> console_error sid ''Error processing data:'' e s1
      | (Inr _, s1) \<Rightarrow> s1)"

section \<open>Polling fetch\<close>

text \<open>\<open>defaultFetch\<close> (lines 102-136).\<close>

definition fetch_body :: "'w env \<Rightarrow> RequestConfig \<Rightarrow> error + string option" where
  "fetch_body env rc =
     (case body rc of
        None \<Rightarrow> Inr None
      | Some b \<Rightarrow>
          if b = Value Undefined then Inr None
          else (case await b of
                  Inl e \<Rightarrow> Inl e
                | Inr v \<Rightarrow> Inr (JSON_stringify env v)))"

definition defaultFetch ::
  "'w env \<Rightarrow> string \<Rightarrow> string \<Rightarrow> RequestConfig \<Rightarrow> 'w state \<Rightarrow> (error + jsval) \<times> 'w state"
where
  "defaultFetch env sid url rc s =
     (if url = [] then (Inl (Error ''URL is required for fetch''), s)
      else
        (case fetch_body env rc of
           Inl e \<Rightarrow> (Inl e, s)
         | Inr b \<Rightarrow>
             (case do_fetch env
                     \<lparr>req_url = url,
                      req_method = (case method rc of
                                      None \<Rightarrow> ''GET''
                                    | Some m \<Rightarrow> if m = [] then ''GET'' else m),
                      req_headers =
                        mergeHeaders [(''Content-Type'', ''application/json'')] (headers rc),
                      req_body = b\<rparr> s of
                (Inl e, s1) \<Rightarrow> (Inl e, s1)
              | (Inr resp, s1) \<Rightarrow>
                  if \<not> ok resp
                  then (case URL_pathname env url of
                          Inl e \<Rightarrow> (Inl e, s1)
                        | Inr p \<Rightarrow> (Inl (HttpError (status resp) p (text_of resp)), s1))
                  else (case JSON_parse env (text_of resp) of
                          Inl e \<Rightarrow> (Inl e, s1)
                        | Inr data \<Rightarrow> (validateInput data, s1)))))"

text \<open>
  \<open>config.customFetch || this.defaultFetch.bind(this)\<close>, called with \<open>id\<close>,
  \<open>config.sourceUrl\<close> and \<open>config.requestConfig || { headers: {} }\<close> (lines 150, 168-172).
\<close>

definition fetchFn ::
  "'w env \<Rightarrow> 'w ForwarderConfig \<Rightarrow> string \<Rightarrow> string \<Rightarrow> 'w state \<Rightarrow> (error + jsval) \<times> 'w state"
where
  "fetchFn env cfg sid url s =
     (let rc = (case requestConfig cfg of
                  None \<Rightarrow> \<lparr>method = None, headers = Some [], body = None\<rparr>
                | Some c \<Rightarrow> c)
      in case customFetch cfg of
           Some f \<Rightarrow> (case f sid url rc (world s) of (r, w) \<Rightarrow> (r, s\<lparr>world := w\<rparr>))
         | None \<Rightarrow> defaultFetch env sid url rc s)"

section \<open>Streams\<close>

text \<open>
  What the RxJS library does with the callbacks that the source hands to it is written out
  here. A \<open>Subscription\<close> that is unsubscribed, or whose stream has failed or completed,
  is closed: its teardown has run (the polling Observable returns
  \<open>() => subscription.unsubscribe()\<close> for its interval, line 180; the socket is closed),
  and its \<open>next\<close> and \<open>error\<close> do nothing from then on.
\<close>

fun stop_source :: "source \<Rightarrow> source" where
  "stop_source (WebSocket _ n) = WebSocket False n"
| "stop_source (Polling _ fs) = Polling False fs"
| "stop_source src = src"

definition finalize :: "'w stream \<Rightarrow> 'w stream" where
  "finalize st = st\<lparr>s_closed := True, s_source := stop_source (s_source st)\<rparr>"

definition close_stream :: "nat \<Rightarrow> 'w state \<Rightarrow> 'w state" where
  "close_stream rid s = s\<lparr>streams := (streams s)[rid := finalize (streams s ! rid)]\<rparr>"

definition set_source :: "nat \<Rightarrow> source \<Rightarrow> 'w state \<Rightarrow> 'w state" where
  "set_source rid src s =
     s\<lparr>streams := (streams s)[rid := (streams s ! rid)\<lparr>s_source := src\<rparr>]\<rparr>"

text \<open>
  \<open>subscriber.next(v)\<close>: the \<open>next\<close> callback of \<open>subscribe\<close> runs unless the
  subscription is closed.
\<close>

definition subscriber_next :: "'w env \<Rightarrow> nat \<Rightarrow> jsval \<Rightarrow> 'w state \<Rightarrow> 'w state" where
  "subscriber_next env rid v s =
     (let st = streams s ! rid
      in if s_closed st then s else process_event env (s_owner st) (s_config st) v s)"

text \<open>
  \<open>subscriber.error(e)\<close>: unless the subscription is closed, the \<open>error\<close> callback of
  \<open>subscribe\<close> runs (line 310 and line 268 log \<open>Stream error:\<close>, line 276 logs
  \<open>Custom stream setup error:\<close>) and the subscription is closed.
  \<open>subscriber.complete()\<close> closes it; \<open>subscribe\<close> gives no \<open>complete\<close> callback.
\<close>

definition subscriber_error :: "nat \<Rightarrow> error \<Rightarrow> 'w state \<Rightarrow> 'w state" where
  "subscriber_error rid e s =
     (let st = streams s ! rid
      in if s_closed st then s
         else close_stream rid
                (console_error (s_owner st)
                   (case s_source st of
                      Setup _ \<Rightarrow> ''Custom stream setup error:''
                    | _ \<Rightarrow> ''Stream error:'') e s))"

definition subscriber_complete :: "nat \<Rightarrow> 'w state \<Rightarrow> 'w state" where
  "subscriber_complete rid s =
     (if s_closed (streams s ! rid) then s else close_stream rid s)"

subsection \<open>Polling (createPollingStream, lines 138-182)\<close>

definition createPollingStream :: "string \<Rightarrow> 'w ForwarderConfig \<Rightarrow> error + source" where
  "createPollingStream sid cfg =
     (if pollInterval cfg = None \<or> pollInterval cfg = Some 0
      then Inl (Error ''Poll interval is required for polling sources'')
      else if sourceUrl cfg = None \<or> sourceUrl cfg = Some []
      then Inl (Error ''sourceUrl is required for polling'')
      else Inr (Polling True []))"

text \<open>
  One firing of \<open>interval(config.pollInterval)\<close>: the callback of lines 153-178 up to
  the call of \<open>fetchFn\<close>. The fetch that it starts is kept in \<open>inflight\<close>, since a later
  tick may fire before it settles.
\<close>

definition add_inflight :: "nat \<Rightarrow> error + jsval \<Rightarrow> 'w state \<Rightarrow> 'w state" where
  "add_inflight rid r s =
     (case s_source (streams s ! rid) of
        Polling t fs \<Rightarrow> set_source rid (Polling t (fs @ [r])) s
      | _ \<Rightarrow> s)"

definition polling_error :: "nat \<Rightarrow> error \<Rightarrow> 'w state \<Rightarrow> 'w state" where
  "polling_error rid e s =
     subscriber_error rid e (console_error (s_owner (streams s ! rid)) ''Polling error:'' e s)"

definition poll_tick :: "'w env \<Rightarrow> nat \<Rightarrow> 'w state \<Rightarrow> 'w state" where
  "poll_tick env rid s =
     (let sid = s_owner (streams s ! rid); cfg = s_config (streams s ! rid)
      in case shouldProcessEvent sid cfg s of
           (Inl e, s1) \<Rightarrow> polling_error rid e s1
         | (Inr should, s1) \<Rightarrow>
             if \<not> should
             then console_log sid ''Skipping fetch based on shouldFetch condition'' s1
             else (case sourceUrl cfg of
                     None \<Rightarrow> polling_error rid (Error ''sourceUrl is required for polling'') s1
                   | Some url \<Rightarrow>
                       if url = []
                       then polling_error rid (Error ''sourceUrl is required for polling'') s1
                       else (case fetchFn env cfg sid url s1 of
                               (r, s2) \<Rightarrow> add_inflight rid r s2)))"

text \<open>
  The fetch at position \<open>j\<close> of \<open>inflight\<close> settles: \<open>subscriber.next(result)\<close> (line 173)
  or the \<open>catch\<close> of lines 174-177.
\<close>

definition poll_settle :: "'w env \<Rightarrow> nat \<Rightarrow> nat \<Rightarrow> 'w state \<Rightarrow> 'w state" where
  "poll_settle env rid j s =
     (case s_source (streams s ! rid) of
        Polling t fs \<Rightarrow>
          if j < length fs
          then (let s1 = set_source rid (Polling t (take j fs @ drop (Suc j) fs)) s
                in case fs ! j of
                     Inr v \<Rightarrow> subscriber_next env rid v s1
                   | Inl e \<Rightarrow> polling_error rid e s1)
          else s
      | _ \<Rightarrow> s)"

subsection \<open>WebSocket (createWebSocketStream, lines 65-100)\<close>

definition createWebSocketStream :: "string \<Rightarrow> 'w ForwarderConfig \<Rightarrow> error + source" where
  "createWebSocketStream sid cfg =
     (if sourceUrl cfg = None \<or> sourceUrl cfg = Some []
      then Inl (Error ''sourceUrl is required for websocket sources'')
      else Inr (WebSocket True 0))"

text \<open>The \<open>deserializer\<close> of lines 75-82: it logs the error and throws it again.\<close>

definition deserializer ::
  "'w env \<Rightarrow> string \<Rightarrow> string \<Rightarrow> 'w state \<Rightarrow> (error + jsval) \<times> 'w state"
where
  "deserializer env sid msg s =
     (case (case JSON_parse env msg of
              Inl e \<Rightarrow> Inl e
            | Inr d \<Rightarrow> validateInput d) of
        Inl e \<Rightarrow> (Inl e, console_error sid ''WebSocket parse error:'' e s)
      | Inr v \<Rightarrow> (Inr v, s))"

text \<open>
  The configuration given to \<open>retry\<close> (lines 90-98): \<open>count: 3\<close>, and a \<open>delay\<close> function
  whose notifier does nothing but \<open>subscriber.complete()\<close> after a \<open>setTimeout\<close> of 5000
  milliseconds. \<open>notification\<close> lists what a notifier can do; \<open>retry\<close> reacts to each:
  when the notifier emits, it resubscribes to the source; when the notifier completes
  without emitting, it completes the resulting stream; when the notifier fails, it
  passes the error on.
\<close>

datatype notification = Emits | Completes | Fails error

definition retry_count :: nat where
  "retry_count = 3"

definition delay_notifier :: "nat \<times> notification" where
  "delay_notifier = (5000, Completes)"

text \<open>
  The socket stream fails with \<open>e\<close>: \<open>catchError\<close> logs and throws again (lines 86-89),
  then \<open>retry\<close> takes over: \<open>if (soFar++ < count)\<close> it calls \<open>delay(err, soFar)\<close>, which
  logs the attempt and subscribes to the notifier; otherwise it fails the stream.
\<close>

definition socket_error :: "nat \<Rightarrow> error \<Rightarrow> 'w state \<Rightarrow> 'w state" where
  "socket_error rid e s =
     (case s_source (streams s ! rid) of
        WebSocket c n \<Rightarrow>
          (let sid = s_owner (streams s ! rid);
               s1 = set_source rid (WebSocket False (Suc n))
                      (console_error sid ''WebSocket error:'' e s)
           in if n < retry_count
              then s1\<lparr>console := console s1 @ [Retrying sid (Suc n)],
                      trace := trace s1 @ [TimerSet rid (fst delay_notifier)]\<rparr>
              else subscriber_error rid e s1)
      | _ \<Rightarrow> s)"

text \<open>The timer of the notifier fires.\<close>

definition retry_notified :: "nat \<Rightarrow> 'w state \<Rightarrow> 'w state" where
  "retry_notified rid s =
     (case s_source (streams s ! rid) of
        WebSocket c n \<Rightarrow>
          (case snd delay_notifier of
             Emits \<Rightarrow> (set_source rid (WebSocket True n) s)\<lparr>trace := trace s @ [Reconnect rid]\<rparr>
           | Completes \<Rightarrow> subscriber_complete rid s
           | Fails e \<Rightarrow> subscriber_error rid e s)
      | _ \<Rightarrow> s)"

text \<open>
  A text frame arrives on the open socket. The socket subject calls the deserializer
  inside a \<open>try\<close>: a value is emitted, an exception fails the socket stream.
\<close>

definition socket_message :: "'w env \<Rightarrow> nat \<Rightarrow> string \<Rightarrow> 'w state \<Rightarrow> 'w state" where
  "socket_message env rid msg s =
     (case deserializer env (s_owner (streams s ! rid)) msg s of
        (Inr v, s1) \<Rightarrow> subscriber_next env rid v s1
      | (Inl e, s1) \<Rightarrow> socket_error rid e s1)"

subsection \<open>Custom (lines 224-281)\<close>

text \<open>
  The promise of \<open>createStream\<close> settles. \<open>from(promise)\<close> calls \<open>next\<close> and then
  \<open>complete\<close> when the promise resolves and the subscription is not closed, and \<open>error\<close>
  when it rejects. The \<open>next\<close> callback is lines 237-274.
\<close>

definition new_stream :: "string \<Rightarrow> 'w ForwarderConfig \<Rightarrow> source \<Rightarrow> 'w state \<Rightarrow> 'w state" where
  "new_stream sid cfg src s =
     s\<lparr>streams := streams s @ [\<lparr>s_owner = sid, s_config = cfg, s_closed = False, s_source = src\<rparr>],
       trace := trace s @ [Start sid (length (streams s))]\<rparr>"

definition set_sub :: "string \<Rightarrow> handle \<Rightarrow> 'w state \<Rightarrow> 'w state" where
  "set_sub sid h s = s\<lparr>subs := AList.update sid h (subs s)\<rparr>"

definition factory_settles :: "nat \<Rightarrow> 'w state \<Rightarrow> 'w state" where
  "factory_settles rid s =
     (case s_source (streams s ! rid) of
        Setup (Some p) \<Rightarrow>
          (let sid = s_owner (streams s ! rid); cfg = s_config (streams s ! rid);
               s1 = set_source rid (Setup None) s
           in case p of
                Rejects e \<Rightarrow> subscriber_error rid e s1
              | ResolvesObservable \<Rightarrow>
                  if s_closed (streams s ! rid) then s1
                  else subscriber_complete rid
                         (set_sub sid (Subscription (length (streams s1)))
                            (new_stream sid cfg Custom s1))
              | ResolvesFunction f \<Rightarrow>
                  if s_closed (streams s ! rid) then s1
                  else subscriber_complete rid (set_sub sid (CleanupFn f) s1)
              | Throws e \<Rightarrow> s1)
      | _ \<Rightarrow> s)"

section \<open>The registry (subscribe, unsubscribe, unsubscribeAll)\<close>

text \<open>
  \<open>unsubscribe\<close> (lines 323-333). Calling the stored cleanup function, or
  \<open>unsubscribe()\<close> of the stored Subscription, is recorded in the trace. \<open>unsubscribe()\<close>
  closes the stream as its completion does; what a cleanup function of the caller does
  is the caller's code, and it is taken to return.
\<close>

definition unsubscribe :: "string \<Rightarrow> 'w state \<Rightarrow> 'w state" where
  "unsubscribe sid s =
     (case map_of (subs s) sid of
        None \<Rightarrow> s
      | Some sub \<Rightarrow>
          (let s1 = (case sub of
                       CleanupFn f \<Rightarrow> s
                     | Subscription rid \<Rightarrow> subscriber_complete rid s)
           in s1\<lparr>trace := trace s1 @ [Teardown sid sub],
                 subs := AList.delete sid (subs s1)\<rparr>))"

text \<open>\<open>unsubscribeAll\<close> (lines 338-340).\<close>

definition unsubscribeAll :: "'w state \<Rightarrow> 'w state" where
  "unsubscribeAll s = fold unsubscribe (map fst (subs s)) s"

text \<open>
  \<open>subscribe\<close> (lines 213-317). The result is the returned id, or the exception that
  the call throws, together with the state that the call leaves.
\<close>

definition subscribe ::
  "'w env \<Rightarrow> string \<Rightarrow> 'w ForwarderConfig \<Rightarrow> 'w state \<Rightarrow> (error + string) \<times> 'w state"
where
  "subscribe env sid cfg s0 =
     (let s = (if map_of (subs s0) sid \<noteq> None
               then unsubscribe sid
                      (console_log sid
                         ''Cleaning up existing subscription before resubscribing'' s0)
               else s0)
      in if type cfg = custom
         then (case createStream cfg of
                 None \<Rightarrow>
                   (Inl (Error (''['' @ sid @ ''] createStream is required for custom sources'')), s)
               | Some f \<Rightarrow>
                   (case f (world s) of
                      (Throws e, w) \<Rightarrow> (Inl e, s\<lparr>world := w\<rparr>)
                    | (p, w) \<Rightarrow>
                        (let s1 = new_stream sid cfg (Setup (Some p)) (s\<lparr>world := w\<rparr>)
                         in (Inr sid,
                             if map_of (subs s1) sid = None
                             then set_sub sid (Subscription (length (streams s))) s1
                             else s1))))
         else (case (if type cfg = websocket
                     then createWebSocketStream sid cfg
                     else createPollingStream sid cfg) of
                 Inl e \<Rightarrow> (Inl e, s)
               | Inr src \<Rightarrow>
                   (Inr sid,
                    set_sub sid (Subscription (length (streams s))) (new_stream sid cfg src s))))"

section \<open>Runs\<close>

text \<open>
  Everything that can happen to a forwarder: the three calls of its interface, and the
  events that the timers, the network and the caller's sources deliver. An event for a
  stream that is not in the state to receive it leaves the state as it is. The awaits
  inside one callback are run to its end in one step; a polling fetch, which can overlap
  later ticks, settles in a step of its own.
\<close>

datatype 'w action =
    CallSubscribe string "'w ForwarderConfig"
  | CallUnsubscribe string
  | CallUnsubscribeAll
  | Tick nat
  | FetchSettles nat nat
  | SocketMessage nat string
  | SocketError nat error
  | SocketClose nat
  | RetryTimeout nat
  | FactorySettles nat
  | Emit nat jsval
  | SourceError nat error
  | SourceComplete nat

definition is_open :: "'w state \<Rightarrow> nat \<Rightarrow> bool" where
  "is_open s rid = (rid < length (streams s) \<and> \<not> s_closed (streams s ! rid))"

fun step :: "'w env \<Rightarrow> 'w action \<Rightarrow> 'w state \<Rightarrow> 'w state" where
  "step env (CallSubscribe sid cfg) s = snd (subscribe env sid cfg s)"
| "step env (CallUnsubscribe sid) s = unsubscribe sid s"
| "step env CallUnsubscribeAll s = unsubscribeAll s"
| "step env (Tick rid) s =
     (if rid < length (streams s)
      then (case s_source (streams s ! rid) of
              Polling True fs \<Rightarrow> poll_tick env rid s
            | _ \<Rightarrow> s)
      else s)"
| "step env (FetchSettles rid j) s =
     (if rid < length (streams s) then poll_settle env rid j s else s)"
| "step env (SocketMessage rid msg) s =
     (if is_open s rid
      then (case s_source (streams s ! rid) of
              WebSocket True n \<Rightarrow> socket_message env rid msg s
            | _ \<Rightarrow> s)
      else s)"
| "step env (SocketError rid e) s =
     (if is_open s rid
      then (case s_source (streams s ! rid) of
              WebSocket True n \<Rightarrow> socket_error rid e s
            | _ \<Rightarrow> s)
      else s)"
| "step env (SocketClose rid) s =
     (if is_open s rid
      then (case s_source (streams s ! rid) of
              WebSocket True n \<Rightarrow> subscriber_complete rid s
            | _ \<Rightarrow> s)
      else s)"
| "step env (RetryTimeout rid) s =
     (if is_open s rid
      then (case s_source (streams s ! rid) of
              WebSocket False n \<Rightarrow> retry_notified rid s
            | _ \<Rightarrow> s)
      else s)"
| "step env (FactorySettles rid) s =
     (if rid < length (streams s) then factory_settles rid s else s)"
| "step env (Emit rid v) s =
     (if is_open s rid
      then (case s_source (streams s ! rid) of
              Custom \<Rightarrow> subscriber_next env rid v s
            | _ \<Rightarrow> s)
      else s)"
| "step env (SourceError rid e) s =
     (if is_open s rid
      then (case s_source (streams s ! rid) of
              Custom \<Rightarrow> subscriber_error rid e s
            | _ \<Rightarrow> s)
      else s)"
| "step env (SourceComplete rid) s =
     (if is_open s rid
      then (case s_source (streams s ! rid) of
              Custom \<Rightarrow> subscriber_complete rid s
            | _ \<Rightarrow> s)
      else s)"

fun run :: "'w env \<Rightarrow> 'w action list \<Rightarrow> 'w state \<Rightarrow> 'w state" where
  "run env [] s = s"
| "run env (a # as) s = run env as (step env a s)"

text \<open>\<open>new EventForwarder()\<close>, in a world \<open>w\<close> of the caller.\<close>

definition init :: "'w \<Rightarrow> 'w state" where
  "init w = \<lparr>subs = [], streams = [], world = w, console = [], requests = [],
            gate_calls = [], trace = []\<rparr>"

section \<open>Examples\<close>

text \<open>
  A platform in which every request is answered with status 200 and the text \<open>{}\<close>, and
  in which \<open>JSON.parse\<close> rejects the text \<open>bad\<close> and reads the text \<open>null\<close> as \<open>null\<close>.
  The world of the examples is a counter.
\<close>

definition ex_env :: "nat env" where
  "ex_env =
     \<lparr>fetch = (\<lambda>rq w. (Inr \<lparr>status = 200, text_of = ''{}''\<rparr>, w)),
      JSON_parse = (\<lambda>t. if t = ''bad'' then Inl (Error ''SyntaxError'')
                         else if t = ''null'' then Inr Null else Inr (JObj [])),
      JSON_stringify = (\<lambda>v. Some ''{}''),
      URL_pathname = (\<lambda>u. Inr ''/'')\<rparr>"

text \<open>
  The same platform with a server that counts the requests and answers the first one
  with status 500.
\<close>

definition ex_flaky_env :: "nat env" where
  "ex_flaky_env =
     ex_env\<lparr>fetch := (\<lambda>rq w. (Inr \<lparr>status = (if w = 0 then 500 else 200), text_of = ''{}''\<rparr>,
                               Suc w))\<rparr>"

definition ex_poll :: "nat ForwarderConfig" where
  "ex_poll =
     \<lparr>type = poll, sourceUrl = Some ''http://source'', webhookUrl = ''http://hook'',
      requestConfig = None, pollInterval = Some 1000, shouldFetch = None,
      customFetch = None, transform = None, createStream = None\<rparr>"

definition ex_socket :: "nat ForwarderConfig" where
  "ex_socket = ex_poll\<lparr>type := websocket, sourceUrl := Some ''ws://source'', pollInterval := None\<rparr>"

definition ex_custom :: "factory_result \<Rightarrow> nat ForwarderConfig" where
  "ex_custom p =
     ex_poll\<lparr>type := custom, sourceUrl := None, pollInterval := None,
             createStream := Some (\<lambda>w. (p, w))\<rparr>"

text \<open>A gate that counts its calls and returns true on the first one only.\<close>

definition ex_first_only :: "jsval \<Rightarrow> (nat, bool) call" where
  "ex_first_only ctx w = (Inr (w = 0), Suc w)"

text \<open>A gate that tells whether its context is defined, and a transform that throws.\<close>

definition ex_defined :: "jsval \<Rightarrow> (nat, bool) call" where
  "ex_defined ctx w = (Inr (ctx \<noteq> Undefined), w)"

definition ex_throwing :: "jsval \<Rightarrow> (nat, jsval) call" where
  "ex_throwing v w = (if v = Null then Inl (Error ''cannot transform'') else Inr v, w)"

text \<open>
  The polling configuration with the gate that is true on its first call only, and what
  holds of a forwarder with this one subscription: a fetch is in flight only after the
  gate has been called, and every request made so far is a \<open>GET\<close> of the polling fetch.
\<close>

definition ex_gated :: "nat ForwarderConfig" where
  "ex_gated = ex_poll\<lparr>shouldFetch := Some ex_first_only\<rparr>"

definition gated_inv :: "nat state \<Rightarrow> bool" where
  "gated_inv s =
     (\<exists>c t fs. streams s = [\<lparr>s_owner = ''p'', s_config = ex_gated, s_closed = c,
                              s_source = Polling t fs\<rparr>] \<and>
               (fs \<noteq> [] \<longrightarrow> 0 < world s) \<and>
               (\<forall>rq \<in> set (requests s). req_method rq = ''GET''))"

fun is_call_subscribe :: "'w action \<Rightarrow> bool" where
  "is_call_subscribe (CallSubscribe sid cfg) = True"
| "is_call_subscribe a = False"

section \<open>Invariants\<close>

text \<open>
  The state in which \<open>subscribe\<close> starts the new stream: the state after lines 217-222.
\<close>

definition cleaned :: "string \<Rightarrow> 'w state \<Rightarrow> 'w state" where
  "cleaned sid s =
     (if map_of (subs s) sid \<noteq> None
      then unsubscribe sid
             (console_log sid ''Cleaning up existing subscription before resubscribing'' s)
      else s)"

text \<open>
  Every stream that is still open is the one recorded in the registry under its owner's
  key, and every recorded Subscription refers to a stream of the store.
\<close>

definition registry_inv :: "'w state \<Rightarrow> bool" where
  "registry_inv s =
     ((\<forall>rid < length (streams s).
         \<not> s_closed (streams s ! rid) \<longrightarrow>
         map_of (subs s) (s_owner (streams s ! rid)) = Some (Subscription rid)) \<and>
      (\<forall>k rid. map_of (subs s) k = Some (Subscription rid) \<longrightarrow> rid < length (streams s)))"

text \<open>
  How the store of streams can change in a run: streams are added at the end, a stream
  keeps its owner and its configuration, a closed stream stays closed, and a polling
  stream whose interval has been cancelled stays so.
\<close>

fun stopped_poll :: "source \<Rightarrow> bool" where
  "stopped_poll (Polling False fs) = True"
| "stopped_poll src = False"

definition stream_step :: "'w stream \<Rightarrow> 'w stream \<Rightarrow> bool" where
  "stream_step a b =
     (s_owner b = s_owner a \<and> s_config b = s_config a \<and> (s_closed a \<longrightarrow> s_closed b) \<and>
      (stopped_poll (s_source a) \<longrightarrow> stopped_poll (s_source b)))"

definition evolves :: "'w stream list \<Rightarrow> 'w stream list \<Rightarrow> bool" where
  "evolves xs ys = (length xs \<le> length ys \<and> (\<forall>i < length xs. stream_step (xs ! i) (ys ! i)))"

definition quiet :: "'w state \<Rightarrow> 'w state \<Rightarrow> bool" where
  "quiet s t =
     (subs t = subs s \<and> length (streams t) = length (streams s) \<and>
      evolves (streams s) (streams t))"


text \<open>The trace of \<open>t\<close> continues the trace of \<open>s\<close> without a reconnection.\<close>

fun is_reconnect :: "event \<Rightarrow> bool" where
  "is_reconnect (Reconnect r) = True"
| "is_reconnect e = False"

definition no_reconnect :: "'w state \<Rightarrow> 'w state \<Rightarrow> bool" where
  "no_reconnect s t = (\<exists>es. trace t = trace s @ es \<and> (\<forall>e \<in> set es. \<not> is_reconnect e))"

section \<open>Frame lemmas\<close>

lemma console_log_fields [simp]:
  "subs (console_log sid m s) = subs s"
  "streams (console_log sid m s) = streams s"
  "world (console_log sid m s) = world s"
  "requests (console_log sid m s) = requests s"
  "gate_calls (console_log sid m s) = gate_calls s"
  "trace (console_log sid m s) = trace s"
  "console (console_log sid m s) = console s @ [Info sid m]"
  by (simp_all add: console_log_def)

lemma console_error_fields [simp]:
  "subs (console_error sid m e s) = subs s"
  "streams (console_error sid m e s) = streams s"
  "world (console_error sid m e s) = world s"
  "requests (console_error sid m e s) = requests s"
  "gate_calls (console_error sid m e s) = gate_calls s"
  "trace (console_error sid m e s) = trace s"
  "console (console_error sid m e s) = console s @ [Failure sid m e]"
  by (simp_all add: console_error_def)

lemma do_fetch_fields [simp]:
  "subs (snd (do_fetch env rq s)) = subs s"
  "streams (snd (do_fetch env rq s)) = streams s"
  "trace (snd (do_fetch env rq s)) = trace s"
  "gate_calls (snd (do_fetch env rq s)) = gate_calls s"
  "console (snd (do_fetch env rq s)) = console s"
  "requests (snd (do_fetch env rq s)) = requests s @ [rq]"
  by (simp_all add: do_fetch_def split: prod.splits)

lemma shouldProcessEvent_fields [simp]:
  "subs (snd (shouldProcessEvent sid cfg s)) = subs s"
  "streams (snd (shouldProcessEvent sid cfg s)) = streams s"
  "trace (snd (shouldProcessEvent sid cfg s)) = trace s"
  "requests (snd (shouldProcessEvent sid cfg s)) = requests s"
  by (simp_all add: shouldProcessEvent_def Let_def split: option.splits sum.splits prod.splits)

lemma forwardToWebhook_fields [simp]:
  "subs (snd (forwardToWebhook env sid url d s)) = subs s"
  "streams (snd (forwardToWebhook env sid url d s)) = streams s"
  "trace (snd (forwardToWebhook env sid url d s)) = trace s"
  "gate_calls (snd (forwardToWebhook env sid url d s)) = gate_calls s"
proof -
  let ?rq = "\<lparr>req_url = url, req_method = ''POST'',
              req_headers = [(''Content-Type'', ''application/json'')],
              req_body = JSON_stringify env d\<rparr>"
  obtain r s1 where d: "do_fetch env ?rq s = (r, s1)" by (cases "do_fetch env ?rq s")
  have f: "subs s1 = subs s" "streams s1 = streams s" "trace s1 = trace s" "gate_calls s1 = gate_calls s"
    using do_fetch_fields[of env ?rq s] d by simp_all
  show "subs (snd (forwardToWebhook env sid url d s)) = subs s"
    "streams (snd (forwardToWebhook env sid url d s)) = streams s"
    "trace (snd (forwardToWebhook env sid url d s)) = trace s"
    "gate_calls (snd (forwardToWebhook env sid url d s)) = gate_calls s"
    using d f by (simp_all add: forwardToWebhook_def split: sum.splits)
qed

lemma apply_transform_fields [simp]:
  "subs (snd (apply_transform cfg d s)) = subs s"
  "streams (snd (apply_transform cfg d s)) = streams s"
  "trace (snd (apply_transform cfg d s)) = trace s"
  "requests (snd (apply_transform cfg d s)) = requests s"
  "gate_calls (snd (apply_transform cfg d s)) = gate_calls s"
  "console (snd (apply_transform cfg d s)) = console s"
  by (simp_all add: apply_transform_def split: option.splits prod.splits)

lemma process_try_fields [simp]:
  "subs (snd (process_try env sid cfg d s)) = subs s"
  "streams (snd (process_try env sid cfg d s)) = streams s"
  "trace (snd (process_try env sid cfg d s)) = trace s"
proof -
  obtain r s1 where g: "shouldProcessEvent sid cfg s = (r, s1)"
    by (cases "shouldProcessEvent sid cfg s")
  have f1: "subs s1 = subs s" "streams s1 = streams s" "trace s1 = trace s"
    using shouldProcessEvent_fields[of sid cfg s] g by simp_all
  obtain r2 s2 where t: "apply_transform cfg d s1 = (r2, s2)"
    by (cases "apply_transform cfg d s1")
  have f2: "subs s2 = subs s" "streams s2 = streams s" "trace s2 = trace s"
    using apply_transform_fields[of cfg d s1] t f1 by simp_all
  show "subs (snd (process_try env sid cfg d s)) = subs s"
    "streams (snd (process_try env sid cfg d s)) = streams s"
    "trace (snd (process_try env sid cfg d s)) = trace s"
    using g t f1 f2 by (simp_all add: process_try_def split: sum.splits)
qed

lemma process_event_fields [simp]:
  "subs (process_event env sid cfg d s) = subs s"
  "streams (process_event env sid cfg d s) = streams s"
  "trace (process_event env sid cfg d s) = trace s"
proof -
  obtain r s1 where g: "process_try env sid cfg d s = (r, s1)"
    by (cases "process_try env sid cfg d s")
  have f1: "subs s1 = subs s" "streams s1 = streams s" "trace s1 = trace s"
    using process_try_fields[of env sid cfg d s] g by simp_all
  show "subs (process_event env sid cfg d s) = subs s"
  "streams (process_event env sid cfg d s) = streams s"
  "trace (process_event env sid cfg d s) = trace s"
    using g f1 by (simp_all add: process_event_def split: sum.splits)
qed

section \<open>The registry\<close>

lemma close_stream_fields [simp]:
  "subs (close_stream rid s) = subs s"
  "world (close_stream rid s) = world s"
  "console (close_stream rid s) = console s"
  "requests (close_stream rid s) = requests s"
  "gate_calls (close_stream rid s) = gate_calls s"
  "trace (close_stream rid s) = trace s"
  "length (streams (close_stream rid s)) = length (streams s)"
  by (simp_all add: close_stream_def)

lemma set_source_fields [simp]:
  "subs (set_source rid src s) = subs s"
  "world (set_source rid src s) = world s"
  "console (set_source rid src s) = console s"
  "requests (set_source rid src s) = requests s"
  "gate_calls (set_source rid src s) = gate_calls s"
  "trace (set_source rid src s) = trace s"
  "length (streams (set_source rid src s)) = length (streams s)"
  by (simp_all add: set_source_def)

lemma subscriber_complete_fields [simp]:
  "subs (subscriber_complete rid s) = subs s"
  "world (subscriber_complete rid s) = world s"
  "console (subscriber_complete rid s) = console s"
  "requests (subscriber_complete rid s) = requests s"
  "gate_calls (subscriber_complete rid s) = gate_calls s"
  "trace (subscriber_complete rid s) = trace s"
  "length (streams (subscriber_complete rid s)) = length (streams s)"
  by (simp_all add: subscriber_complete_def)

lemma subscriber_error_fields [simp]:
  "subs (subscriber_error rid e s) = subs s"
  "world (subscriber_error rid e s) = world s"
  "requests (subscriber_error rid e s) = requests s"
  "gate_calls (subscriber_error rid e s) = gate_calls s"
  "trace (subscriber_error rid e s) = trace s"
  "length (streams (subscriber_error rid e s)) = length (streams s)"
  by (simp_all add: subscriber_error_def Let_def)

lemma subscriber_next_fields [simp]:
  "subs (subscriber_next env rid v s) = subs s"
  "streams (subscriber_next env rid v s) = streams s"
  "trace (subscriber_next env rid v s) = trace s"
  by (simp_all add: subscriber_next_def Let_def)

lemma new_stream_fields [simp]:
  "subs (new_stream sid cfg src s) = subs s"
  "world (new_stream sid cfg src s) = world s"
  "console (new_stream sid cfg src s) = console s"
  "requests (new_stream sid cfg src s) = requests s"
  "gate_calls (new_stream sid cfg src s) = gate_calls s"
  "trace (new_stream sid cfg src s) = trace s @ [Start sid (length (streams s))]"
  "streams (new_stream sid cfg src s) =
     streams s @ [\<lparr>s_owner = sid, s_config = cfg, s_closed = False, s_source = src\<rparr>]"
  by (simp_all add: new_stream_def)

lemma set_sub_fields [simp]:
  "subs (set_sub sid h s) = AList.update sid h (subs s)"
  "streams (set_sub sid h s) = streams s"
  "world (set_sub sid h s) = world s"
  "console (set_sub sid h s) = console s"
  "requests (set_sub sid h s) = requests s"
  "gate_calls (set_sub sid h s) = gate_calls s"
  "trace (set_sub sid h s) = trace s"
  by (simp_all add: set_sub_def)

lemma map_of_None_delete: "map_of al k = None \<Longrightarrow> AList.delete k al = al"
  by (simp add: map_of_eq_None_iff)

lemma subs_unsubscribe: "subs (unsubscribe k s) = AList.delete k (subs s)"
  by (simp add: unsubscribe_def Let_def map_of_None_delete split: option.splits handle.splits)

lemma unsubscribe_absent: "map_of (subs s) k = None \<Longrightarrow> unsubscribe k s = s"
  by (simp add: unsubscribe_def)

lemma unsubscribe_fields [simp]:
  "world (unsubscribe k s) = world s"
  "console (unsubscribe k s) = console s"
  "requests (unsubscribe k s) = requests s"
  "gate_calls (unsubscribe k s) = gate_calls s"
  "length (streams (unsubscribe k s)) = length (streams s)"
  by (simp_all add: unsubscribe_def Let_def split: option.splits handle.splits)

lemma trace_unsubscribe:
  "trace (unsubscribe k s) =
     (case map_of (subs s) k of None \<Rightarrow> trace s | Some h \<Rightarrow> trace s @ [Teardown k h])"
  by (simp add: unsubscribe_def Let_def split: option.splits handle.splits)

lemma subs_fold_unsubscribe:
  "subs (fold unsubscribe ks s) = fold AList.delete ks (subs s)"
  by (induction ks arbitrary: s) (simp_all add: subs_unsubscribe)

lemma fold_delete_all:
  "fst ` set al \<subseteq> set ks \<Longrightarrow> fold AList.delete ks al = []"
proof (induction ks arbitrary: al)
  case Nil
  then show ?case by simp
next
  case (Cons k ks)
  have "fst ` set (AList.delete k al) \<subseteq> set ks"
    using Cons.prems by (auto simp: AList.delete_eq)
  then show ?case using Cons.IH by simp
qed

lemma subs_unsubscribeAll: "subs (unsubscribeAll s) = []"
  by (simp add: unsubscribeAll_def subs_fold_unsubscribe fold_delete_all)

lemma trace_fold_unsubscribe_mono:
  "set (trace s) \<subseteq> set (trace (fold unsubscribe ks s))"
proof (induction ks arbitrary: s)
  case Nil
  then show ?case by simp
next
  case (Cons k ks)
  have "set (trace s) \<subseteq> set (trace (unsubscribe k s))"
    by (auto simp: trace_unsubscribe split: option.splits)
  with Cons.IH[of "unsubscribe k s"] show ?case by auto
qed

lemma teardown_fold_unsubscribe:
  "k \<in> set ks \<Longrightarrow> map_of (subs s) k = Some h \<Longrightarrow>
   Teardown k h \<in> set (trace (fold unsubscribe ks s))"
proof (induction ks arbitrary: s)
  case Nil
  then show ?case by simp
next
  case (Cons k' ks)
  show ?case
  proof (cases "k' = k")
    case True
    have "Teardown k h \<in> set (trace (unsubscribe k s))"
      using Cons.prems(2) by (simp add: trace_unsubscribe)
    then show ?thesis
      using True trace_fold_unsubscribe_mono[of "unsubscribe k s" ks] by auto
  next
    case False
    have "map_of (subs (unsubscribe k' s)) k = Some h"
      using False Cons.prems(2) by (simp add: subs_unsubscribe)
    moreover have "k \<in> set ks" using False Cons.prems(1) by simp
    ultimately show ?thesis using Cons.IH by simp
  qed
qed

lemma closed_close_stream:
  "rid < length (streams s) \<Longrightarrow> s_closed (streams s ! rid) \<Longrightarrow>
   s_closed (streams (close_stream r s) ! rid)"
  by (cases "r = rid") (simp_all add: close_stream_def finalize_def)

lemma closed_subscriber_complete:
  "rid < length (streams s) \<Longrightarrow> s_closed (streams s ! rid) \<Longrightarrow>
   s_closed (streams (subscriber_complete r s) ! rid)"
  by (simp add: subscriber_complete_def closed_close_stream)

lemma closed_unsubscribe_mono:
  "rid < length (streams s) \<Longrightarrow> s_closed (streams s ! rid) \<Longrightarrow>
   s_closed (streams (unsubscribe k s) ! rid)"
  by (simp add: unsubscribe_def Let_def closed_subscriber_complete
      split: option.splits handle.splits)

lemma closed_unsubscribe_recorded:
  "map_of (subs s) k = Some (Subscription rid) \<Longrightarrow> rid < length (streams s) \<Longrightarrow>
   s_closed (streams (unsubscribe k s) ! rid)"
  by (simp add: unsubscribe_def Let_def subscriber_complete_def close_stream_def finalize_def)

lemma closed_fold_unsubscribe_mono:
  "rid < length (streams s) \<Longrightarrow> s_closed (streams s ! rid) \<Longrightarrow>
   s_closed (streams (fold unsubscribe ks s) ! rid)"
  by (induction ks arbitrary: s) (simp_all add: closed_unsubscribe_mono)

lemma closed_fold_unsubscribe:
  "k \<in> set ks \<Longrightarrow> map_of (subs s) k = Some (Subscription rid) \<Longrightarrow>
   rid < length (streams s) \<Longrightarrow> s_closed (streams (fold unsubscribe ks s) ! rid)"
proof (induction ks arbitrary: s)
  case Nil
  then show ?case by simp
next
  case (Cons k' ks)
  show ?case
  proof (cases "k' = k")
    case True
    then show ?thesis
      using Cons.prems closed_unsubscribe_recorded[of s k rid]
        closed_fold_unsubscribe_mono[of rid "unsubscribe k s" ks] by simp
  next
    case False
    have "map_of (subs (unsubscribe k' s)) k = Some (Subscription rid)"
      using False Cons.prems(2) by (simp add: subs_unsubscribe)
    moreover have "k \<in> set ks" using False Cons.prems(1) by simp
    ultimately show ?thesis using Cons.IH Cons.prems(3) by simp
  qed
qed


section \<open>Configuration errors\<close>


section \<open>How streams evolve\<close>

lemma stream_step_refl [simp]: "stream_step a a"
  by (simp add: stream_step_def)

lemma stream_step_trans: "stream_step a b \<Longrightarrow> stream_step b c \<Longrightarrow> stream_step a c"
  by (simp add: stream_step_def)

lemma evolves_refl [simp]: "evolves xs xs"
  by (simp add: evolves_def)

lemma evolves_trans: "evolves xs ys \<Longrightarrow> evolves ys zs \<Longrightarrow> evolves xs zs"
  unfolding evolves_def
  by (metis (no_types, lifting) le_trans less_le_trans stream_step_trans)

lemma evolves_append [simp]: "evolves xs (xs @ ys)"
  by (simp add: evolves_def nth_append)

lemma evolves_update:
  "(i < length xs \<Longrightarrow> stream_step (xs ! i) b) \<Longrightarrow> evolves xs (xs[i := b])"
  by (cases "i < length xs") (auto simp: evolves_def nth_list_update)

lemma quiet_refl [simp]: "quiet s s"
  by (simp add: quiet_def)

lemma quiet_trans: "quiet s t \<Longrightarrow> quiet t u \<Longrightarrow> quiet s u"
  by (auto simp: quiet_def intro: evolves_trans)

lemma quiet_same_streams:
  "subs t = subs s \<Longrightarrow> streams t = streams s \<Longrightarrow> quiet s t"
  by (simp add: quiet_def)

lemma stream_step_finalize [simp]: "stream_step a (finalize a)"
  by (cases "s_source a" rule: stopped_poll.cases) (simp_all add: stream_step_def finalize_def)

lemma quiet_close_stream [simp]: "quiet s (close_stream rid s)"
  by (simp add: quiet_def close_stream_def evolves_update)

lemma quiet_set_source:
  "(stopped_poll (s_source (streams s ! rid)) \<longrightarrow> stopped_poll src) \<Longrightarrow>
   quiet s (set_source rid src s)"
  by (simp add: quiet_def set_source_def evolves_update stream_step_def)

lemma quiet_subscriber_complete [simp]: "quiet s (subscriber_complete rid s)"
  by (simp add: subscriber_complete_def)

lemma quiet_console_error [simp]: "quiet s (console_error sid m e s)"
  by (simp add: quiet_same_streams)

lemma quiet_console_log [simp]: "quiet s (console_log sid m s)"
  by (simp add: quiet_same_streams)

lemma quiet_subscriber_error [simp]: "quiet s (subscriber_error rid e s)"
proof -
  have "quiet s (console_error (s_owner (streams s ! rid))
                   (case s_source (streams s ! rid) of
                      Setup _ \<Rightarrow> ''Custom stream setup error:''
                    | _ \<Rightarrow> ''Stream error:'') e s)" (is "quiet s ?t")
    by simp
  moreover have "quiet ?t (close_stream rid ?t)" by simp
  ultimately have "quiet s (close_stream rid ?t)" by (rule quiet_trans)
  then show ?thesis by (simp add: subscriber_error_def Let_def)
qed

lemma quiet_subscriber_next [simp]: "quiet s (subscriber_next env rid v s)"
  by (simp add: quiet_same_streams)

lemma quiet_polling_error [simp]: "quiet s (polling_error rid e s)"
proof -
  let ?t = "console_error (s_owner (streams s ! rid)) ''Polling error:'' e s"
  have "quiet s ?t" by simp
  moreover have "quiet ?t (subscriber_error rid e ?t)" by simp
  ultimately show ?thesis unfolding polling_error_def by (rule quiet_trans)
qed

lemma quiet_add_inflight [simp]: "quiet s (add_inflight rid r s)"
  by (cases "s_source (streams s ! rid)" rule: stopped_poll.cases)
     (simp_all add: add_inflight_def quiet_set_source)

lemma defaultFetch_fields [simp]:
  "subs (snd (defaultFetch env sid url rc s)) = subs s"
  "streams (snd (defaultFetch env sid url rc s)) = streams s"
  "trace (snd (defaultFetch env sid url rc s)) = trace s"
  "gate_calls (snd (defaultFetch env sid url rc s)) = gate_calls s"
proof -
  have "\<And>rq. subs (snd (do_fetch env rq s)) = subs s \<and> streams (snd (do_fetch env rq s)) = streams s
     \<and> trace (snd (do_fetch env rq s)) = trace s \<and> gate_calls (snd (do_fetch env rq s)) = gate_calls s"
    by simp
  then have *: "\<And>rq r s1. do_fetch env rq s = (r, s1) \<Longrightarrow>
     subs s1 = subs s \<and> streams s1 = streams s \<and> trace s1 = trace s \<and> gate_calls s1 = gate_calls s"
    by (metis snd_conv)
  show "subs (snd (defaultFetch env sid url rc s)) = subs s"
    "streams (snd (defaultFetch env sid url rc s)) = streams s"
    "trace (snd (defaultFetch env sid url rc s)) = trace s"
    "gate_calls (snd (defaultFetch env sid url rc s)) = gate_calls s"
    using * by (auto simp: defaultFetch_def split: sum.splits prod.splits)
qed

lemma fetchFn_fields [simp]:
  "subs (snd (fetchFn env cfg sid url s)) = subs s"
  "streams (snd (fetchFn env cfg sid url s)) = streams s"
  "trace (snd (fetchFn env cfg sid url s)) = trace s"
  "gate_calls (snd (fetchFn env cfg sid url s)) = gate_calls s"
  by (simp_all add: fetchFn_def Let_def split: option.splits prod.splits)

lemma quiet_poll_tick [simp]: "quiet s (poll_tick env rid s)"
proof -
  let ?sid = "s_owner (streams s ! rid)" and ?cfg = "s_config (streams s ! rid)"
  obtain r s1 where g: "shouldProcessEvent ?sid ?cfg s = (r, s1)"
    by (cases "shouldProcessEvent ?sid ?cfg s")
  have q1: "quiet s s1"
    using shouldProcessEvent_fields[of ?sid ?cfg s] g by (simp add: quiet_same_streams)
  have step: "\<And>t. quiet s1 t \<Longrightarrow> quiet s t"
    using q1 quiet_trans by blast
  have f: "\<And>url r2 s2. fetchFn env ?cfg ?sid url s1 = (r2, s2) \<Longrightarrow>
             quiet s1 (add_inflight rid r2 s2)"
  proof -
    fix url r2 s2
    assume a: "fetchFn env ?cfg ?sid url s1 = (r2, s2)"
    have "quiet s1 s2"
      using fetchFn_fields[of env ?cfg ?sid url s1] a by (simp add: quiet_same_streams)
    moreover have "quiet s2 (add_inflight rid r2 s2)" by simp
    ultimately show "quiet s1 (add_inflight rid r2 s2)" by (rule quiet_trans)
  qed
  show ?thesis
    using g f by (auto simp: poll_tick_def Let_def intro!: step split: sum.splits option.splits prod.splits)
qed

lemma quiet_poll_settle [simp]: "quiet s (poll_settle env rid j s)"
proof (cases "s_source (streams s ! rid)")
  case (Polling t fs)
  let ?s1 = "set_source rid (Polling t (take j fs @ drop (Suc j) fs)) s"
  have q1: "quiet s ?s1"
    using Polling by (cases t) (simp_all add: quiet_set_source)
  have "quiet ?s1 (subscriber_next env rid v ?s1)" for v by simp
  then have a: "quiet s (subscriber_next env rid v ?s1)" for v
    using q1 quiet_trans by blast
  have "quiet ?s1 (polling_error rid e ?s1)" for e by simp
  then have b: "quiet s (polling_error rid e ?s1)" for e
    using q1 quiet_trans by blast
  show ?thesis
    using Polling a b by (simp add: poll_settle_def Let_def split: sum.splits)
qed (simp_all add: poll_settle_def)

lemma deserializer_fields [simp]:
  "subs (snd (deserializer env sid msg s)) = subs s"
  "streams (snd (deserializer env sid msg s)) = streams s"
  "trace (snd (deserializer env sid msg s)) = trace s"
  "requests (snd (deserializer env sid msg s)) = requests s"
  "gate_calls (snd (deserializer env sid msg s)) = gate_calls s"
  "world (snd (deserializer env sid msg s)) = world s"
  by (simp_all add: deserializer_def split: sum.splits)

lemma quiet_socket_error [simp]: "quiet s (socket_error rid e s)"
proof (cases "s_source (streams s ! rid)")
  case (WebSocket c n)
  let ?s0 = "console_error (s_owner (streams s ! rid)) ''WebSocket error:'' e s"
  let ?s1 = "set_source rid (WebSocket False (Suc n)) ?s0"
  have "quiet s ?s0" by simp
  moreover have "quiet ?s0 ?s1" using WebSocket by (simp add: quiet_set_source)
  ultimately have q1: "quiet s ?s1" by (rule quiet_trans)
  have a: "quiet s (?s1\<lparr>console := c1, trace := t1\<rparr>)" for c1 t1
    using q1 by (simp add: quiet_def)
  have "quiet ?s1 (subscriber_error rid e ?s1)" by simp
  then have b: "quiet s (subscriber_error rid e ?s1)"
    using q1 quiet_trans by blast
  show ?thesis
    using WebSocket a b by (simp add: socket_error_def Let_def)
qed (simp_all add: socket_error_def)

lemma quiet_retry_notified [simp]: "quiet s (retry_notified rid s)"
  by (cases "s_source (streams s ! rid)")
     (simp_all add: retry_notified_def delay_notifier_def)

lemma quiet_socket_message [simp]: "quiet s (socket_message env rid msg s)"
proof -
  let ?sid = "s_owner (streams s ! rid)"
  obtain r s1 where d: "deserializer env ?sid msg s = (r, s1)"
    by (cases "deserializer env ?sid msg s")
  have q1: "quiet s s1"
    using deserializer_fields[of env ?sid msg s] d by (simp add: quiet_same_streams)
  have "quiet s1 (subscriber_next env rid v s1)" for v by simp
  then have a: "quiet s (subscriber_next env rid v s1)" for v
    using q1 quiet_trans by blast
  have "quiet s1 (socket_error rid e s1)" for e by simp
  then have b: "quiet s (socket_error rid e s1)" for e
    using q1 quiet_trans by blast
  show ?thesis using d a b by (simp add: socket_message_def split: sum.splits)
qed

text \<open>Steps that change the registry.\<close>

lemma evolves_unsubscribe [simp]: "evolves (streams s) (streams (unsubscribe k s))"
proof -
  have "evolves (streams s) (streams (subscriber_complete rid s))" for rid
    using quiet_subscriber_complete[of s rid] by (simp add: quiet_def)
  then show ?thesis
    by (simp add: unsubscribe_def Let_def split: option.splits handle.splits)
qed

lemma evolves_fold_unsubscribe [simp]:
  "evolves (streams s) (streams (fold unsubscribe ks s))"
proof (induction ks arbitrary: s)
  case Nil
  then show ?case by simp
next
  case (Cons k ks)
  have "evolves (streams s) (streams (unsubscribe k s))" by simp
  then show ?case using Cons.IH[of "unsubscribe k s"] evolves_trans by fastforce
qed

lemma evolves_unsubscribeAll [simp]: "evolves (streams s) (streams (unsubscribeAll s))"
  by (simp add: unsubscribeAll_def)

lemma evolves_subscribe [simp]: "evolves (streams s) (streams (snd (subscribe env sid cfg s)))"
proof -
  let ?s = "if map_of (subs s) sid \<noteq> None
            then unsubscribe sid
                   (console_log sid ''Cleaning up existing subscription before resubscribing'' s)
            else s"
  have e1: "evolves (streams s) (streams ?s)"
    using evolves_unsubscribe[of "console_log sid ''Cleaning up existing subscription before resubscribing'' s" sid]
    by simp
  have e2: "evolves (streams ?s) (streams (snd (subscribe env sid cfg s)))"
    by (auto simp: subscribe_def Let_def split: option.splits sum.splits prod.splits factory_result.splits
        simp del: evolves_unsubscribe)
  from e1 e2 show ?thesis by (rule evolves_trans)
qed

lemma evolves_factory_settles [simp]: "evolves (streams s) (streams (factory_settles rid s))"
proof (cases "s_source (streams s ! rid)")
  case (Setup po)
  show ?thesis
  proof (cases po)
    case None
    then show ?thesis using Setup by (simp add: factory_settles_def)
  next
    case (Some p)
    let ?sid = "s_owner (streams s ! rid)" and ?cfg = "s_config (streams s ! rid)"
    let ?s1 = "set_source rid (Setup None) s"
    have q1: "quiet s ?s1" using Setup by (simp add: quiet_set_source)
    then have e1: "evolves (streams s) (streams ?s1)" by (simp add: quiet_def)
    have ex: "evolves (streams ?s1) (streams t) \<Longrightarrow> evolves (streams s) (streams t)" for t
      using e1 evolves_trans by blast
    have qe: "quiet a b \<Longrightarrow> evolves (streams a) (streams b)" for a b :: "'a state"
      by (simp add: quiet_def)
    have a: "evolves (streams ?s1) (streams (subscriber_error rid e ?s1))" for e
      by (rule qe) simp
    have b: "evolves (streams ?s1)
        (streams (subscriber_complete rid (set_sub ?sid (Subscription (length (streams ?s1)))
                            (new_stream ?sid ?cfg Custom ?s1))))"
    proof -
      let ?t = "set_sub ?sid (Subscription (length (streams ?s1))) (new_stream ?sid ?cfg Custom ?s1)"
      have "evolves (streams ?s1) (streams ?t)" by simp
      moreover have "evolves (streams ?t) (streams (subscriber_complete rid ?t))"
        by (rule qe) simp
      ultimately show ?thesis by (rule evolves_trans)
    qed
    have c: "evolves (streams ?s1) (streams (subscriber_complete rid (set_sub ?sid (CleanupFn f) ?s1)))" for f
    proof -
      let ?t = "set_sub ?sid (CleanupFn f) ?s1"
      have "evolves (streams ?s1) (streams ?t)" by simp
      moreover have "evolves (streams ?t) (streams (subscriber_complete rid ?t))"
        by (rule qe) simp
      ultimately show ?thesis by (rule evolves_trans)
    qed
    show ?thesis
      using Setup Some e1 ex[OF a] ex[OF b] ex[OF c]
      by (cases p) (simp_all add: factory_settles_def Let_def)
  qed
qed (simp_all add: factory_settles_def)

lemma evolves_step [simp]: "evolves (streams s) (streams (step env a s))"
proof -
  have qe: "quiet s t \<Longrightarrow> evolves (streams s) (streams t)" for t
    by (simp add: quiet_def)
  show ?thesis
  proof (cases a)
    case (Tick rid)
    then show ?thesis
      using qe[OF quiet_poll_tick[of s env rid]]
      by (simp split: source.splits bool.splits)
  next
    case (FetchSettles rid j)
    then show ?thesis using qe[OF quiet_poll_settle[of s env rid j]] by simp
  next
    case (SocketMessage rid msg)
    then show ?thesis using qe[OF quiet_socket_message[of s env rid msg]]
      by (simp split: source.splits bool.splits)
  next
    case (SocketError rid e)
    then show ?thesis using qe[OF quiet_socket_error[of s rid e]]
      by (simp split: source.splits bool.splits)
  next
    case (SocketClose rid)
    then show ?thesis using qe[OF quiet_subscriber_complete[of s rid]]
      by (simp split: source.splits bool.splits)
  next
    case (RetryTimeout rid)
    then show ?thesis using qe[OF quiet_retry_notified[of s rid]]
      by (simp split: source.splits bool.splits)
  next
    case (Emit rid v)
    then show ?thesis by (simp split: source.splits)
  next
    case (SourceError rid e)
    then show ?thesis using qe[OF quiet_subscriber_error[of s rid e]]
      by (simp split: source.splits)
  next
    case (SourceComplete rid)
    then show ?thesis using qe[OF quiet_subscriber_complete[of s rid]]
      by (simp split: source.splits)
  qed simp_all
qed

lemma evolves_run [simp]: "evolves (streams s) (streams (run env as s))"
proof (induction as arbitrary: s)
  case Nil
  then show ?case by simp
next
  case (Cons a as)
  have "evolves (streams s) (streams (step env a s))" by simp
  then show ?case using Cons.IH[of "step env a s"] evolves_trans by fastforce
qed

section \<open>The registry invariant\<close>

lemma registry_invI:
  "(\<And>rid. rid < length (streams s) \<Longrightarrow> \<not> s_closed (streams s ! rid) \<Longrightarrow>
      map_of (subs s) (s_owner (streams s ! rid)) = Some (Subscription rid)) \<Longrightarrow>
   (\<And>k rid. map_of (subs s) k = Some (Subscription rid) \<Longrightarrow> rid < length (streams s)) \<Longrightarrow>
   registry_inv s"
  by (simp add: registry_inv_def)

lemma registry_inv_recorded:
  "registry_inv s \<Longrightarrow> rid < length (streams s) \<Longrightarrow> \<not> s_closed (streams s ! rid) \<Longrightarrow>
   map_of (subs s) (s_owner (streams s ! rid)) = Some (Subscription rid)"
  by (simp add: registry_inv_def)

lemma registry_inv_valid:
  "registry_inv s \<Longrightarrow> map_of (subs s) k = Some (Subscription rid) \<Longrightarrow> rid < length (streams s)"
  by (simp add: registry_inv_def)

lemma registry_inv_init [simp]: "registry_inv (init w)"
  by (simp add: registry_inv_def init_def)

lemma evolves_owner:
  "evolves xs ys \<Longrightarrow> i < length xs \<Longrightarrow> s_owner (ys ! i) = s_owner (xs ! i)"
  by (simp add: evolves_def stream_step_def)

lemma evolves_closed:
  "evolves xs ys \<Longrightarrow> i < length xs \<Longrightarrow> s_closed (xs ! i) \<Longrightarrow> s_closed (ys ! i)"
  by (simp add: evolves_def stream_step_def)

lemma registry_inv_quiet:
  assumes "registry_inv s" and "quiet s t"
  shows "registry_inv t"
proof (rule registry_invI)
  fix rid
  assume a: "rid < length (streams t)" "\<not> s_closed (streams t ! rid)"
  have len: "length (streams t) = length (streams s)" and sb: "subs t = subs s"
    and ev: "evolves (streams s) (streams t)"
    using assms(2) by (simp_all add: quiet_def)
  have "\<not> s_closed (streams s ! rid)"
    using a len ev evolves_closed by fastforce
  then have "map_of (subs s) (s_owner (streams s ! rid)) = Some (Subscription rid)"
    using assms(1) a len registry_inv_recorded by fastforce
  then show "map_of (subs t) (s_owner (streams t ! rid)) = Some (Subscription rid)"
    using sb ev a len evolves_owner by fastforce
next
  fix k rid
  assume "map_of (subs t) k = Some (Subscription rid)"
  then show "rid < length (streams t)"
    using assms by (simp add: quiet_def registry_inv_def)
qed

lemma unsubscribe_streams:
  "streams (unsubscribe k s) =
     (case map_of (subs s) k of
        Some (Subscription rid) \<Rightarrow> streams (subscriber_complete rid s)
      | _ \<Rightarrow> streams s)"
  by (simp add: unsubscribe_def Let_def split: option.splits handle.splits)

lemma subscriber_complete_closes:
  "rid < length (streams s) \<Longrightarrow> s_closed (streams (subscriber_complete rid s) ! rid)"
  by (simp add: subscriber_complete_def close_stream_def finalize_def)

lemma registry_inv_unsubscribe:
  assumes "registry_inv s"
  shows "registry_inv (unsubscribe k s)"
proof (rule registry_invI)
  fix rid
  assume a: "rid < length (streams (unsubscribe k s))"
    "\<not> s_closed (streams (unsubscribe k s) ! rid)"
  have len: "rid < length (streams s)" using a(1) by simp
  have op: "\<not> s_closed (streams s ! rid)"
    using a(2) len closed_unsubscribe_mono by blast
  have rec: "map_of (subs s) (s_owner (streams s ! rid)) = Some (Subscription rid)"
    using assms len op by (rule registry_inv_recorded)
  have own: "s_owner (streams (unsubscribe k s) ! rid) = s_owner (streams s ! rid)"
    using evolves_unsubscribe[of s k] len evolves_owner by blast
  have "s_owner (streams s ! rid) \<noteq> k"
  proof
    assume "s_owner (streams s ! rid) = k"
    then have "map_of (subs s) k = Some (Subscription rid)" using rec by simp
    then have "s_closed (streams (unsubscribe k s) ! rid)"
      using len by (rule closed_unsubscribe_recorded)
    then show False using a(2) by simp
  qed
  then show "map_of (subs (unsubscribe k s)) (s_owner (streams (unsubscribe k s) ! rid)) =
      Some (Subscription rid)"
    using rec own by (simp add: subs_unsubscribe)
next
  fix k' rid
  assume "map_of (subs (unsubscribe k s)) k' = Some (Subscription rid)"
  then have "map_of (subs s) k' = Some (Subscription rid)"
    by (simp add: subs_unsubscribe delete_conv split: if_splits)
  then show "rid < length (streams (unsubscribe k s))"
    using assms registry_inv_valid by fastforce
qed

lemma registry_inv_fold_unsubscribe:
  "registry_inv s \<Longrightarrow> registry_inv (fold unsubscribe ks s)"
  by (induction ks arbitrary: s) (simp_all add: registry_inv_unsubscribe)

text \<open>Recording a new stream under a key that has no open stream.\<close>

lemma registry_inv_new_stream:
  assumes "registry_inv s"
    and "\<And>rid. rid < length (streams s) \<Longrightarrow> s_owner (streams s ! rid) = sid \<Longrightarrow>
           s_closed (streams s ! rid)"
  shows "registry_inv (set_sub sid (Subscription (length (streams s))) (new_stream sid cfg src s))"
proof (rule registry_invI)
  let ?t = "set_sub sid (Subscription (length (streams s))) (new_stream sid cfg src s)"
  fix rid
  assume a: "rid < length (streams ?t)" "\<not> s_closed (streams ?t ! rid)"
  show "map_of (subs ?t) (s_owner (streams ?t ! rid)) = Some (Subscription rid)"
  proof (cases "rid < length (streams s)")
    case True
    then have op: "\<not> s_closed (streams s ! rid)" using a(2) by (simp add: nth_append)
    then have "s_owner (streams s ! rid) \<noteq> sid" using assms(2) True by blast
    moreover have "map_of (subs s) (s_owner (streams s ! rid)) = Some (Subscription rid)"
      using assms(1) True op by (rule registry_inv_recorded)
    ultimately show ?thesis using True by (simp add: nth_append update_conv)
  next
    case False
    then have "rid = length (streams s)" using a(1) by simp
    then show ?thesis by (simp add: update_conv)
  qed
next
  let ?t = "set_sub sid (Subscription (length (streams s))) (new_stream sid cfg src s)"
  fix k rid
  assume "map_of (subs ?t) k = Some (Subscription rid)"
  then have "rid = length (streams s) \<or> map_of (subs s) k = Some (Subscription rid)"
    by (simp add: update_conv split: if_splits)
  then show "rid < length (streams ?t)"
    using assms(1) registry_inv_valid by fastforce
qed

lemma registry_inv_world [simp]: "registry_inv (s\<lparr>world := w\<rparr>) = registry_inv s"
  by (simp add: registry_inv_def)

lemma absent_all_closed:
  "registry_inv s \<Longrightarrow> map_of (subs s) sid = None \<Longrightarrow> rid < length (streams s) \<Longrightarrow>
   s_owner (streams s ! rid) = sid \<Longrightarrow> s_closed (streams s ! rid)"
  using registry_inv_recorded by fastforce

lemma cleaned_absent: "map_of (subs (cleaned sid s)) sid = None"
  by (simp add: cleaned_def subs_unsubscribe delete_conv)

lemma registry_inv_console_log [simp]: "registry_inv (console_log sid m s) = registry_inv s"
  by (simp add: registry_inv_def)

lemma registry_inv_cleaned: "registry_inv s \<Longrightarrow> registry_inv (cleaned sid s)"
  by (simp add: cleaned_def registry_inv_unsubscribe)

lemma cleaned_length [simp]: "length (streams (cleaned sid s)) = length (streams s)"
  by (simp add: cleaned_def)

text \<open>The possible outcomes of \<open>subscribe\<close>, in terms of the state after the cleanup.\<close>

lemma subscribe_cases:
  obtains
    (failed) e w where "subscribe env sid cfg s = (Inl e, (cleaned sid s)\<lparr>world := w\<rparr>)"
  | (started) src w where
      "subscribe env sid cfg s =
         (Inr sid, set_sub sid (Subscription (length (streams s)))
                     (new_stream sid cfg src ((cleaned sid s)\<lparr>world := w\<rparr>)))"
proof -
  let ?s = "cleaned sid s"
  have abs: "map_of (subs ?s) sid = None" by (rule cleaned_absent)
  have same: "?s\<lparr>world := world ?s\<rparr> = ?s" by simp
  show ?thesis
  proof (cases "type cfg = custom")
    case True
    show ?thesis
    proof (cases "createStream cfg")
      case None
      then have "subscribe env sid cfg s =
          (Inl (Error (''['' @ sid @ ''] createStream is required for custom sources'')),
           ?s\<lparr>world := world ?s\<rparr>)"
        using True by (simp add: subscribe_def cleaned_def)
      then show ?thesis by (rule failed)
    next
      case (Some f)
      obtain p w where fw: "f (world ?s) = (p, w)" by (cases "f (world ?s)")
      show ?thesis
      proof (cases "\<exists>e. p = Throws e")
        case True
        then obtain e where "p = Throws e" by blast
        then have "subscribe env sid cfg s = (Inl e, ?s\<lparr>world := w\<rparr>)"
          using \<open>type cfg = custom\<close> Some fw
          by (simp add: subscribe_def cleaned_def)
        then show ?thesis by (rule failed)
      next
        case False
        have "subscribe env sid cfg s =
          (Inr sid, set_sub sid (Subscription (length (streams s)))
                     (new_stream sid cfg (Setup (Some p)) (?s\<lparr>world := w\<rparr>)))"
          using \<open>type cfg = custom\<close> Some fw False abs
          by (cases p) (simp_all add: subscribe_def cleaned_def Let_def)
        then show ?thesis by (rule started)
      qed
    qed
  next
    case False
    show ?thesis
    proof (cases "if type cfg = websocket then createWebSocketStream sid cfg
                  else createPollingStream sid cfg")
      case (Inl e)
      then have "subscribe env sid cfg s = (Inl e, ?s\<lparr>world := world ?s\<rparr>)"
        using False by (simp add: subscribe_def cleaned_def)
      then show ?thesis by (rule failed)
    next
      case (Inr src)
      then have "subscribe env sid cfg s =
          (Inr sid, set_sub sid (Subscription (length (streams s)))
                     (new_stream sid cfg src (?s\<lparr>world := world ?s\<rparr>)))"
        using False by (simp add: subscribe_def cleaned_def)
      then show ?thesis by (rule started)
    qed
  qed
qed

lemma registry_inv_subscribe:
  assumes "registry_inv s"
  shows "registry_inv (snd (subscribe env sid cfg s))"
proof (cases rule: subscribe_cases[of env sid cfg s])
  case (failed e w)
  then show ?thesis using assms by (simp add: registry_inv_cleaned)
next
  case (started src w)
  let ?c = "(cleaned sid s)\<lparr>world := w\<rparr>"
  have inv: "registry_inv ?c" using assms by (simp add: registry_inv_cleaned)
  have "registry_inv (set_sub sid (Subscription (length (streams ?c))) (new_stream sid cfg src ?c))"
  proof (rule registry_inv_new_stream[OF inv])
    fix rid
    assume "rid < length (streams ?c)" "s_owner (streams ?c ! rid) = sid"
    then show "s_closed (streams ?c ! rid)"
      using absent_all_closed[of "cleaned sid s" sid rid] registry_inv_cleaned[OF assms]
        cleaned_absent[of sid s]
      by simp
  qed
  then show ?thesis using started by simp
qed

lemma complete_after_new_stream:
  "rid < length (streams s) \<Longrightarrow>
   subscriber_complete rid (set_sub k h (new_stream sid cfg src s)) =
   set_sub k h (new_stream sid cfg src (subscriber_complete rid s))"
  by (simp add: subscriber_complete_def close_stream_def new_stream_def set_sub_def
      nth_append list_update_append)

lemma complete_after_set_sub:
  "subscriber_complete rid (set_sub k h s) = set_sub k h (subscriber_complete rid s)"
  by (simp add: subscriber_complete_def close_stream_def set_sub_def)

lemma registry_inv_set_cleanup:
  assumes "registry_inv s"
    and "\<And>rid. rid < length (streams s) \<Longrightarrow> s_owner (streams s ! rid) = sid \<Longrightarrow>
           s_closed (streams s ! rid)"
  shows "registry_inv (set_sub sid (CleanupFn f) s)"
proof (rule registry_invI)
  fix rid
  assume a: "rid < length (streams (set_sub sid (CleanupFn f) s))"
    "\<not> s_closed (streams (set_sub sid (CleanupFn f) s) ! rid)"
  then have "s_owner (streams s ! rid) \<noteq> sid" using assms(2) by auto
  moreover have "map_of (subs s) (s_owner (streams s ! rid)) = Some (Subscription rid)"
    using assms(1) a by (simp add: registry_inv_recorded)
  ultimately show "map_of (subs (set_sub sid (CleanupFn f) s))
      (s_owner (streams (set_sub sid (CleanupFn f) s) ! rid)) = Some (Subscription rid)"
    by (simp add: update_conv)
next
  fix k rid
  assume "map_of (subs (set_sub sid (CleanupFn f) s)) k = Some (Subscription rid)"
  then have "map_of (subs s) k = Some (Subscription rid)"
    by (simp add: update_conv split: if_splits)
  then show "rid < length (streams (set_sub sid (CleanupFn f) s))"
    using assms(1) registry_inv_valid by fastforce
qed

text \<open>After the only open stream of a key has completed, the key has no open stream.\<close>

lemma completed_all_closed:
  assumes inv: "registry_inv s" and r: "rid < length (streams s)"
    and op: "\<not> s_closed (streams s ! rid)"
    and r': "r' < length (streams s)"
    and own: "s_owner (streams s ! r') = s_owner (streams s ! rid)"
  shows "s_closed (streams (subscriber_complete rid s) ! r')"
proof (cases "r' = rid")
  case True
  then show ?thesis using r by (simp add: subscriber_complete_closes)
next
  case False
  have "s_closed (streams s ! r')"
  proof (rule ccontr)
    assume "\<not> ?thesis"
    then have "map_of (subs s) (s_owner (streams s ! r')) = Some (Subscription r')"
      using inv r' by (simp add: registry_inv_recorded)
    moreover have "map_of (subs s) (s_owner (streams s ! rid)) = Some (Subscription rid)"
      using inv r op by (simp add: registry_inv_recorded)
    ultimately have "Some (Subscription r') = Some (Subscription rid)"
      by (simp only: own)
    then show False using False by simp
  qed
  then show ?thesis using r' by (rule closed_subscriber_complete[rotated])
qed

lemma subscriber_complete_owner [simp]:
  "rid' < length (streams s) \<Longrightarrow>
   s_owner (streams (subscriber_complete rid s) ! rid') = s_owner (streams s ! rid')"
  using quiet_subscriber_complete[of s rid] by (simp add: quiet_def evolves_owner)

lemma registry_inv_factory_settles:
  assumes inv: "registry_inv s" and r: "rid < length (streams s)"
  shows "registry_inv (factory_settles rid s)"
proof (cases "s_source (streams s ! rid)")
  case (Setup po)
  show ?thesis
  proof (cases po)
    case None
    then show ?thesis using Setup inv by (simp add: factory_settles_def)
  next
    case (Some p)
    let ?sid = "s_owner (streams s ! rid)" and ?cfg = "s_config (streams s ! rid)"
    let ?s1 = "set_source rid (Setup None) s"
    have q1: "quiet s ?s1" using Setup by (simp add: quiet_set_source)
    have inv1: "registry_inv ?s1" using inv q1 by (rule registry_inv_quiet)
    have r1: "rid < length (streams ?s1)" using r by simp
    have own1: "s_owner (streams ?s1 ! rid) = ?sid"
      using q1 r by (simp add: quiet_def evolves_owner)
    have cl1: "s_closed (streams ?s1 ! rid) = s_closed (streams s ! rid)"
      using r by (simp add: set_source_def)
    let ?s2 = "subscriber_complete rid ?s1"
    have inv2: "registry_inv ?s2"
      using inv1 quiet_subscriber_complete by (rule registry_inv_quiet)
    have closed2: "\<not> s_closed (streams s ! rid) \<Longrightarrow> r' < length (streams ?s2) \<Longrightarrow>
        s_owner (streams ?s2 ! r') = ?sid \<Longrightarrow> s_closed (streams ?s2 ! r')" for r'
      using completed_all_closed[OF inv1 r1, of r'] cl1 own1 by simp
    show ?thesis
    proof (cases p)
      case (Throws e)
      then show ?thesis using Setup Some inv1 by (simp add: factory_settles_def)
    next
      case (Rejects e)
      have "registry_inv (subscriber_error rid e ?s1)"
        using inv1 quiet_subscriber_error by (rule registry_inv_quiet)
      then show ?thesis using Setup Some Rejects by (simp add: factory_settles_def)
    next
      case ResolvesObservable
      show ?thesis
      proof (cases "s_closed (streams s ! rid)")
        case True
        then show ?thesis
          using Setup Some ResolvesObservable inv1 by (simp add: factory_settles_def)
      next
        case False
        have "registry_inv (set_sub ?sid (Subscription (length (streams ?s2)))
                (new_stream ?sid ?cfg Custom ?s2))"
          using inv2 closed2[OF False] by (rule registry_inv_new_stream)
        then show ?thesis
          using Setup Some ResolvesObservable False r
          by (simp add: factory_settles_def Let_def complete_after_new_stream)
      qed
    next
      case (ResolvesFunction f)
      show ?thesis
      proof (cases "s_closed (streams s ! rid)")
        case True
        then show ?thesis
          using Setup Some ResolvesFunction inv1 by (simp add: factory_settles_def)
      next
        case False
        have "registry_inv (set_sub ?sid (CleanupFn f) ?s2)"
          using inv2 closed2[OF False] by (rule registry_inv_set_cleanup)
        then show ?thesis
          using Setup Some ResolvesFunction False
          by (simp add: factory_settles_def Let_def complete_after_set_sub)
      qed
    qed
  qed
qed (simp_all add: factory_settles_def inv)

lemma registry_inv_step:
  assumes "registry_inv s"
  shows "registry_inv (step env a s)"
proof -
  have q: "quiet s t \<Longrightarrow> registry_inv t" for t
    using assms by (rule registry_inv_quiet)
  show ?thesis
  proof (cases a)
    case (CallSubscribe sid cfg)
    then show ?thesis using assms by (simp add: registry_inv_subscribe)
  next
    case (CallUnsubscribe sid)
    then show ?thesis using assms by (simp add: registry_inv_unsubscribe)
  next
    case CallUnsubscribeAll
    then show ?thesis using assms by (simp add: unsubscribeAll_def registry_inv_fold_unsubscribe)
  next
    case (Tick rid)
    then show ?thesis using assms q[OF quiet_poll_tick[of s env rid]]
      by (simp split: source.splits bool.splits)
  next
    case (FetchSettles rid j)
    then show ?thesis using assms q[OF quiet_poll_settle[of s env rid j]] by simp
  next
    case (SocketMessage rid msg)
    then show ?thesis using assms q[OF quiet_socket_message[of s env rid msg]]
      by (simp split: source.splits bool.splits)
  next
    case (SocketError rid e)
    then show ?thesis using assms q[OF quiet_socket_error[of s rid e]]
      by (simp split: source.splits bool.splits)
  next
    case (SocketClose rid)
    then show ?thesis using assms q[OF quiet_subscriber_complete[of s rid]]
      by (simp split: source.splits bool.splits)
  next
    case (RetryTimeout rid)
    then show ?thesis using assms q[OF quiet_retry_notified[of s rid]]
      by (simp split: source.splits bool.splits)
  next
    case (FactorySettles rid)
    then show ?thesis using assms by (simp add: registry_inv_factory_settles)
  next
    case (Emit rid v)
    then show ?thesis using assms q[OF quiet_subscriber_next[of s env rid v]]
      by (simp split: source.splits)
  next
    case (SourceError rid e)
    then show ?thesis using assms q[OF quiet_subscriber_error[of s rid e]]
      by (simp split: source.splits)
  next
    case (SourceComplete rid)
    then show ?thesis using assms q[OF quiet_subscriber_complete[of s rid]]
      by (simp split: source.splits)
  qed
qed

lemma registry_inv_run: "registry_inv s \<Longrightarrow> registry_inv (run env as s)"
  by (induction as arbitrary: s) (simp_all add: registry_inv_step)

lemma registry_inv_reachable: "registry_inv (run env as (init w))"
  by (simp add: registry_inv_run)

lemma one_open_stream_per_key:
  assumes "registry_inv s" and "is_open s r1" and "is_open s r2"
    and "s_owner (streams s ! r1) = s_owner (streams s ! r2)"
  shows "r1 = r2"
proof -
  have "map_of (subs s) (s_owner (streams s ! r1)) = Some (Subscription r1)"
    using assms(1,2) registry_inv_recorded[of s r1] by (simp add: is_open_def)
  moreover have "map_of (subs s) (s_owner (streams s ! r2)) = Some (Subscription r2)"
    using assms(1,3) registry_inv_recorded[of s r2] by (simp add: is_open_def)
  ultimately have "Some (Subscription r1) = Some (Subscription r2)"
    by (simp only: assms(4))
  then show ?thesis by simp
qed

section \<open>Resubscribing\<close>

lemma cleaned_trace:
  "map_of (subs s) sid = Some h \<Longrightarrow> trace (cleaned sid s) = trace s @ [Teardown sid h]"
  by (simp add: cleaned_def trace_unsubscribe)

lemma cleaned_evolves [simp]: "evolves (streams s) (streams (cleaned sid s))"
  using evolves_unsubscribe[of "console_log sid ''Cleaning up existing subscription before resubscribing'' s" sid]
  by (simp add: cleaned_def)

lemma cleaned_all_closed:
  assumes "registry_inv s" and "rid < length (streams s)" and "s_owner (streams s ! rid) = sid"
  shows "s_closed (streams (cleaned sid s) ! rid)"
proof -
  have "s_owner (streams (cleaned sid s) ! rid) = sid"
    using assms(2,3) cleaned_evolves[of s sid] evolves_owner by fastforce
  then show ?thesis
    using absent_all_closed[of "cleaned sid s" sid rid] registry_inv_cleaned[OF assms(1)]
      cleaned_absent[of sid s] assms(2)
    by simp
qed


section \<open>Pipeline errors\<close>

lemma process_try_gate_throws:
  assumes "shouldFetch cfg = Some g" and "resolvedBody cfg = Inr ctx"
    and "g ctx (world s) = (Inl e, w)"
  shows "fst (process_try env sid cfg v s) = Inl e"
  using assms by (simp add: process_try_def shouldProcessEvent_def)

lemma process_try_body_rejects:
  assumes "shouldFetch cfg = Some g" and "resolvedBody cfg = Inl e"
  shows "fst (process_try env sid cfg v s) = Inl e"
  using assms by (simp add: process_try_def shouldProcessEvent_def)

lemma process_try_transform_throws:
  assumes "shouldProcessEvent sid cfg s = (Inr True, s1)" and "transform cfg = Some f"
    and "f v (world s1) = (Inl e, w)"
  shows "fst (process_try env sid cfg v s) = Inl e"
  using assms by (simp add: process_try_def apply_transform_def)

lemma forwardToWebhook_fails:
  assumes "fetch env \<lparr>req_url = url, req_method = ''POST'',
              req_headers = [(''Content-Type'', ''application/json'')],
              req_body = JSON_stringify env out\<rparr> (world s) = (r, w)"
    and "r = Inl e \<or> (\<exists>resp. r = Inr resp \<and> \<not> ok resp \<and> e = WebhookError (status resp))"
  shows "fst (forwardToWebhook env sid url out s) = Inl e"
  using assms by (auto simp: forwardToWebhook_def do_fetch_def)

lemma process_try_forward_fails:
  assumes "shouldProcessEvent sid cfg s = (Inr True, s1)"
    and "apply_transform cfg v s1 = (Inr out, s2)"
    and "fetch env \<lparr>req_url = webhookUrl cfg, req_method = ''POST'',
              req_headers = [(''Content-Type'', ''application/json'')],
              req_body = JSON_stringify env out\<rparr> (world s2) = (r, w)"
    and "r = Inl e \<or> (\<exists>resp. r = Inr resp \<and> \<not> ok resp \<and> e = WebhookError (status resp))"
  shows "fst (process_try env sid cfg v s) = Inl e"
  using assms forwardToWebhook_fails[of env "webhookUrl cfg" out s2 r w e sid]
  by (simp add: process_try_def)

lemma process_event_console:
  "process_try env sid cfg v s = (Inl e, s1) \<Longrightarrow>
   console (process_event env sid cfg v s) = console s1 @ [Failure sid ''Error processing data:'' e]"
  by (simp add: process_event_def)

text \<open>
  Every strategy delivers its events through \<open>subscriber_next\<close>: the custom Observable
  when it emits, the socket when a frame passes the deserializer, the polling stream when
  a fetch settles with a value.
\<close>

lemma strategies_deliver_through_next:
  assumes "is_open s rid"
  shows "s_source (streams s ! rid) = Custom \<Longrightarrow>
           step env (Emit rid v) s = subscriber_next env rid v s"
    and "s_source (streams s ! rid) = WebSocket True n \<Longrightarrow>
         deserializer env (s_owner (streams s ! rid)) msg s = (Inr v, s1) \<Longrightarrow>
           step env (SocketMessage rid msg) s = subscriber_next env rid v s1"
    and "s_source (streams s ! rid) = Polling t fs \<Longrightarrow> j < length fs \<Longrightarrow> fs ! j = Inr v \<Longrightarrow>
           step env (FetchSettles rid j) s =
             subscriber_next env rid v
               (set_source rid (Polling t (take j fs @ drop (Suc j) fs)) s)"
  using assms
  by (simp_all add: is_open_def socket_message_def poll_settle_def Let_def)

text \<open>
  C4: when a stream of any kind delivers an event to the \<open>next\<close> callback, the registry
  and the streams are left as they are and the stream stays open; an exception of the
  pipeline is logged as \<open>Error processing data:\<close>, whether it comes from the gate, from
  the transform or from the forward (a failed request or a status outside 200-299); and
  the next event of the stream is processed in turn.
\<close>

theorem pipeline_error_is_caught:
  assumes "is_open s rid"
  shows "subs (subscriber_next env rid v s) = subs s \<and>
         streams (subscriber_next env rid v s) = streams s \<and>
         is_open (subscriber_next env rid v s) rid \<and>
         (\<forall>e s1. process_try env (s_owner (streams s ! rid)) (s_config (streams s ! rid)) v s
                    = (Inl e, s1) \<longrightarrow>
            console (subscriber_next env rid v s) =
              console s1 @ [Failure (s_owner (streams s ! rid)) ''Error processing data:'' e]) \<and>
         (\<forall>g ctx e w. shouldFetch (s_config (streams s ! rid)) = Some g \<and>
            resolvedBody (s_config (streams s ! rid)) = Inr ctx \<and>
            g ctx (world s) = (Inl e, w) \<longrightarrow>
            fst (process_try env (s_owner (streams s ! rid)) (s_config (streams s ! rid)) v s)
              = Inl e) \<and>
         (\<forall>f e w s1. shouldProcessEvent (s_owner (streams s ! rid)) (s_config (streams s ! rid)) s
              = (Inr True, s1) \<and>
            transform (s_config (streams s ! rid)) = Some f \<and>
            f v (world s1) = (Inl e, w) \<longrightarrow>
            fst (process_try env (s_owner (streams s ! rid)) (s_config (streams s ! rid)) v s)
              = Inl e) \<and>
         (\<forall>out e r w s1 s2.
            shouldProcessEvent (s_owner (streams s ! rid)) (s_config (streams s ! rid)) s
              = (Inr True, s1) \<and>
            apply_transform (s_config (streams s ! rid)) v s1 = (Inr out, s2) \<and>
            fetch env \<lparr>req_url = webhookUrl (s_config (streams s ! rid)), req_method = ''POST'',
              req_headers = [(''Content-Type'', ''application/json'')],
              req_body = JSON_stringify env out\<rparr> (world s2) = (r, w) \<and>
            (r = Inl e \<or> (\<exists>resp. r = Inr resp \<and> \<not> ok resp \<and> e = WebhookError (status resp)))
            \<longrightarrow>
            fst (process_try env (s_owner (streams s ! rid)) (s_config (streams s ! rid)) v s)
              = Inl e) \<and>
         (\<forall>v'. subscriber_next env rid v' (subscriber_next env rid v s) =
            process_event env (s_owner (streams s ! rid)) (s_config (streams s ! rid)) v'
              (process_event env (s_owner (streams s ! rid)) (s_config (streams s ! rid)) v s))"
proof -
  let ?sid = "s_owner (streams s ! rid)" and ?cfg = "s_config (streams s ! rid)"
  have op: "\<not> s_closed (streams s ! rid)" "rid < length (streams s)"
    using assms by (simp_all add: is_open_def)
  have nx: "subscriber_next env rid v s = process_event env ?sid ?cfg v s"
    using op by (simp add: subscriber_next_def Let_def)
  have a: "subs (subscriber_next env rid v s) = subs s \<and>
         streams (subscriber_next env rid v s) = streams s \<and>
         is_open (subscriber_next env rid v s) rid"
    using assms by (simp add: is_open_def)
  have b: "\<forall>e s1. process_try env ?sid ?cfg v s = (Inl e, s1) \<longrightarrow>
            console (subscriber_next env rid v s) =
              console s1 @ [Failure ?sid ''Error processing data:'' e]"
    using nx process_event_console by fastforce
  have c: "\<forall>g ctx e w. shouldFetch ?cfg = Some g \<and> resolvedBody ?cfg = Inr ctx \<and>
            g ctx (world s) = (Inl e, w) \<longrightarrow> fst (process_try env ?sid ?cfg v s) = Inl e"
    using process_try_gate_throws by fastforce
  have d: "\<forall>f e w s1. shouldProcessEvent ?sid ?cfg s = (Inr True, s1) \<and>
            transform ?cfg = Some f \<and> f v (world s1) = (Inl e, w) \<longrightarrow>
            fst (process_try env ?sid ?cfg v s) = Inl e"
    using process_try_transform_throws by fastforce
  have e: "\<forall>out e r w s1 s2.
            shouldProcessEvent ?sid ?cfg s = (Inr True, s1) \<and>
            apply_transform ?cfg v s1 = (Inr out, s2) \<and>
            fetch env \<lparr>req_url = webhookUrl ?cfg, req_method = ''POST'',
              req_headers = [(''Content-Type'', ''application/json'')],
              req_body = JSON_stringify env out\<rparr> (world s2) = (r, w) \<and>
            (r = Inl e \<or> (\<exists>resp. r = Inr resp \<and> \<not> ok resp \<and> e = WebhookError (status resp)))
            \<longrightarrow> fst (process_try env ?sid ?cfg v s) = Inl e"
    using process_try_forward_fails[of ?sid ?cfg s _ v _ _ env] by blast
  have f: "\<forall>v'. subscriber_next env rid v' (subscriber_next env rid v s) =
            process_event env ?sid ?cfg v' (process_event env ?sid ?cfg v s)"
    using op by (simp add: nx subscriber_next_def Let_def)
  from a b c d e f show ?thesis by blast
qed

section \<open>Evaluating examples\<close>

lemmas ex_defs = ex_env_def ex_flaky_env_def ex_poll_def ex_socket_def ex_custom_def
  ex_first_only_def ex_defined_def ex_throwing_def

lemmas model_defs = init_def subscribe_def unsubscribe_def unsubscribeAll_def
  createWebSocketStream_def createPollingStream_def new_stream_def set_sub_def
  console_log_def console_error_def subscriber_next_def subscriber_error_def
  subscriber_complete_def close_stream_def finalize_def set_source_def
  poll_tick_def poll_settle_def polling_error_def add_inflight_def fetchFn_def defaultFetch_def
  fetch_body_def do_fetch_def mergeHeaders_def validateInput_def ok_def
  shouldProcessEvent_def resolvedBody_def process_event_def process_try_def apply_transform_def
  forwardToWebhook_def deserializer_def socket_message_def socket_error_def retry_notified_def
  retry_count_def delay_notifier_def factory_settles_def is_open_def Let_def

section \<open>Failures that end a stream\<close>

lemma stopped_poll_cases: "stopped_poll src \<Longrightarrow> \<exists>fs. src = Polling False fs"
  by (cases src rule: stopped_poll.cases) simp_all

lemma tick_stopped:
  assumes "rid < length (streams s)" and "stopped_poll (s_source (streams s ! rid))"
  shows "step env (Tick rid) s = s"
  using stopped_poll_cases[OF assms(2)] by auto

lemma run_keeps_stopped:
  assumes "rid < length (streams s)" and "s_closed (streams s ! rid)"
    and "stopped_poll (s_source (streams s ! rid))"
  shows "rid < length (streams (run env as s)) \<and> s_closed (streams (run env as s) ! rid) \<and>
         stopped_poll (s_source (streams (run env as s) ! rid))"
  using evolves_run[of s env as] assms by (auto simp: evolves_def stream_step_def)

text \<open>
  The failures of the default fetch: a transport error, or a response whose status is
  outside 200-299.
\<close>

lemma defaultFetch_fails:
  assumes "url \<noteq> []" and "fetch_body env rc = Inr b"
    and "fetch env \<lparr>req_url = url,
                    req_method = (case method rc of
                                    None \<Rightarrow> ''GET''
                                  | Some m \<Rightarrow> if m = [] then ''GET'' else m),
                    req_headers =
                      mergeHeaders [(''Content-Type'', ''application/json'')] (headers rc),
                    req_body = b\<rparr> (world s) = (r, w)"
    and "r = Inl e \<or>
         (\<exists>resp p. r = Inr resp \<and> \<not> ok resp \<and> URL_pathname env url = Inr p \<and>
                    e = HttpError (status resp) p (text_of resp))"
  shows "fst (defaultFetch env sid url rc s) = Inl e"
  using assms by (auto simp: defaultFetch_def do_fetch_def)

lemma poll_settle_failure:
  assumes "is_open s rid" and "s_source (streams s ! rid) = Polling True fs"
    and "j < length fs" and "fs ! j = Inl e"
  shows "poll_settle env rid j s =
     s\<lparr>streams := (streams s)[rid := (streams s ! rid)
            \<lparr>s_closed := True, s_source := Polling False (take j fs @ drop (Suc j) fs)\<rparr>],
       console := console s @ [Failure (s_owner (streams s ! rid)) ''Polling error:'' e,
                               Failure (s_owner (streams s ! rid)) ''Stream error:'' e]\<rparr>"
  using assms
  by (simp add: poll_settle_def polling_error_def subscriber_error_def close_stream_def
      finalize_def set_source_def console_error_def is_open_def Let_def)

text \<open>
  C1, as the code has it: when a fetch of a polling tick fails, the error is logged as
  \<open>Polling error:\<close> and given to \<open>subscriber.error\<close>, which logs \<open>Stream error:\<close> and
  ends the stream: the interval is cancelled, nothing is forwarded, the registry keeps
  its entry, and in every continuation the stream stays closed and a tick of its
  interval does nothing.
\<close>

theorem poll_fetch_failure_ends_stream:
  assumes "is_open s rid" and "s_source (streams s ! rid) = Polling True fs"
    and "j < length fs" and "fs ! j = Inl e"
  shows "console (step env (FetchSettles rid j) s) =
           console s @ [Failure (s_owner (streams s ! rid)) ''Polling error:'' e,
                        Failure (s_owner (streams s ! rid)) ''Stream error:'' e] \<and>
         \<not> is_open (step env (FetchSettles rid j) s) rid \<and>
         s_source (streams (step env (FetchSettles rid j) s) ! rid) =
           Polling False (take j fs @ drop (Suc j) fs) \<and>
         subs (step env (FetchSettles rid j) s) = subs s \<and>
         requests (step env (FetchSettles rid j) s) = requests s \<and>
         (\<forall>as. \<not> is_open (run env as (step env (FetchSettles rid j) s)) rid \<and>
               step env (Tick rid) (run env as (step env (FetchSettles rid j) s)) =
               run env as (step env (FetchSettles rid j) s))"
proof -
  let ?t = "step env (FetchSettles rid j) s"
  have r: "rid < length (streams s)" using assms(1) by (simp add: is_open_def)
  have t: "?t = s\<lparr>streams := (streams s)[rid := (streams s ! rid)
            \<lparr>s_closed := True, s_source := Polling False (take j fs @ drop (Suc j) fs)\<rparr>],
       console := console s @ [Failure (s_owner (streams s ! rid)) ''Polling error:'' e,
                               Failure (s_owner (streams s ! rid)) ''Stream error:'' e]\<rparr>"
    using r poll_settle_failure[OF assms] by simp
  have st: "rid < length (streams ?t)" "s_closed (streams ?t ! rid)"
    "s_source (streams ?t ! rid) = Polling False (take j fs @ drop (Suc j) fs)"
    using r by (simp_all add: t del: step.simps)
  have later: "\<not> is_open (run env as ?t) rid \<and> step env (Tick rid) (run env as ?t) = run env as ?t"
    for as
  proof -
    have k: "rid < length (streams (run env as ?t)) \<and> s_closed (streams (run env as ?t) ! rid) \<and>
         stopped_poll (s_source (streams (run env as ?t) ! rid))"
      using run_keeps_stopped[of rid ?t env as] st by simp
    then show ?thesis using tick_stopped[of rid "run env as ?t" env] by (simp add: is_open_def)
  qed
  have "console ?t = console s @ [Failure (s_owner (streams s ! rid)) ''Polling error:'' e,
                        Failure (s_owner (streams s ! rid)) ''Stream error:'' e]"
    "subs ?t = subs s" "requests ?t = requests s"
    by (simp_all add: t del: step.simps)
  moreover have "\<not> is_open ?t rid" using st by (simp add: is_open_def)
  ultimately show ?thesis using st(3) later by blast
qed


lemma deserializer_fails:
  assumes "JSON_parse env msg = Inl e \<or>
           (\<exists>d. JSON_parse env msg = Inr d \<and> \<not> truthy d \<and> e = Error ''Invalid input data'')"
  shows "deserializer env sid msg s = (Inl e, console_error sid ''WebSocket parse error:'' e s)"
  using assms by (auto simp: deserializer_def validateInput_def)

text \<open>
  C7, as the code has it: a text frame that does not parse, or that parses to a falsy
  value, is logged as \<open>WebSocket parse error:\<close> and thrown again by the deserializer, so
  that it fails the socket stream exactly as a connection error does: it is logged as
  \<open>WebSocket error:\<close>, nothing is forwarded, the socket is no longer open, and a further
  frame is not delivered.
\<close>

theorem malformed_frame_fails_socket_stream:
  assumes "is_open s rid" and "s_source (streams s ! rid) = WebSocket True n"
    and "JSON_parse env msg = Inl e \<or>
         (\<exists>d. JSON_parse env msg = Inr d \<and> \<not> truthy d \<and> e = Error ''Invalid input data'')"
  shows "step env (SocketMessage rid msg) s =
           socket_error rid e
             (console_error (s_owner (streams s ! rid)) ''WebSocket parse error:'' e s) \<and>
         requests (step env (SocketMessage rid msg) s) = requests s \<and>
         (\<exists>rest. console (step env (SocketMessage rid msg) s) =
            console s @ [Failure (s_owner (streams s ! rid)) ''WebSocket parse error:'' e,
                         Failure (s_owner (streams s ! rid)) ''WebSocket error:'' e] @ rest) \<and>
         s_source (streams (step env (SocketMessage rid msg) s) ! rid) = WebSocket False (Suc n) \<and>
         (\<forall>msg'. step env (SocketMessage rid msg') (step env (SocketMessage rid msg) s) =
                 step env (SocketMessage rid msg) s)"
proof -
  let ?sid = "s_owner (streams s ! rid)"
  let ?t = "step env (SocketMessage rid msg) s"
  have r: "rid < length (streams s)" "\<not> s_closed (streams s ! rid)"
    using assms(1) by (simp_all add: is_open_def)
  have a: "?t = socket_error rid e (console_error ?sid ''WebSocket parse error:'' e s)"
    using assms(1,2) deserializer_fails[OF assms(3), of ?sid s]
    by (simp add: socket_message_def)
  have src: "s_source (streams ?t ! rid) = WebSocket False (Suc n)"
    using r assms(2) unfolding a
    by (simp add: socket_error_def subscriber_error_def close_stream_def finalize_def
        set_source_def console_error_def Let_def)
  have rq: "requests ?t = requests s"
    using r assms(2) unfolding a
    by (simp add: socket_error_def subscriber_error_def close_stream_def finalize_def
        set_source_def console_error_def Let_def)
  have co: "\<exists>rest. console ?t =
      console s @ [Failure ?sid ''WebSocket parse error:'' e, Failure ?sid ''WebSocket error:'' e] @ rest"
    using r assms(2) unfolding a
    by (simp add: socket_error_def subscriber_error_def close_stream_def finalize_def
        set_source_def console_error_def Let_def)
  have "step env (SocketMessage rid msg') ?t = ?t" for msg'
    using src step.simps(6)[of env rid msg' ?t] by (simp del: step.simps)
  then show ?thesis using a src rq co by blast
qed

section \<open>The gate of a polling stream\<close>

lemma shouldProcessEvent_gate:
  assumes "shouldFetch cfg = Some g" and "resolvedBody cfg = Inr ctx"
  shows "fst (shouldProcessEvent sid cfg s) = fst (g ctx (world s)) \<and>
         gate_calls (snd (shouldProcessEvent sid cfg s)) =
           gate_calls s @ [(sid, ctx, fst (g ctx (world s)))]"
  using assms
  by (simp add: shouldProcessEvent_def Let_def split: prod.splits sum.splits)

lemma process_try_gate_calls:
  "gate_calls (snd (process_try env sid cfg v s)) = gate_calls (snd (shouldProcessEvent sid cfg s))"
proof -
  obtain r s1 where g: "shouldProcessEvent sid cfg s = (r, s1)"
    by (cases "shouldProcessEvent sid cfg s")
  obtain r2 s2 where t: "apply_transform cfg v s1 = (r2, s2)"
    by (cases "apply_transform cfg v s1")
  have "gate_calls s2 = gate_calls s1"
    using apply_transform_fields(5)[of cfg v s1] t by simp
  moreover have "gate_calls (snd (forwardToWebhook env sid u d s2)) = gate_calls s2" for u d
    by simp
  ultimately show ?thesis
    using g t by (simp add: process_try_def split: sum.splits)
qed

lemma process_try_requests:
  assumes "fst (shouldProcessEvent sid cfg s) \<noteq> Inr True"
  shows "requests (snd (process_try env sid cfg v s)) = requests s"
proof -
  obtain r s1 where g: "shouldProcessEvent sid cfg s = (r, s1)"
    by (cases "shouldProcessEvent sid cfg s")
  have "requests s1 = requests s"
    using shouldProcessEvent_fields(4)[of sid cfg s] g by simp
  then show ?thesis
    using g assms by (auto simp: process_try_def split: sum.splits)
qed

lemma process_event_gate_calls:
  "gate_calls (process_event env sid cfg v s) = gate_calls (snd (shouldProcessEvent sid cfg s))"
proof -
  obtain r s1 where g: "process_try env sid cfg v s = (r, s1)"
    by (cases "process_try env sid cfg v s")
  then have "gate_calls s1 = gate_calls (snd (shouldProcessEvent sid cfg s))"
    using process_try_gate_calls[of env sid cfg v s] by simp
  then show ?thesis using g by (simp add: process_event_def split: sum.splits)
qed

lemma process_event_requests:
  assumes "fst (shouldProcessEvent sid cfg s) \<noteq> Inr True"
  shows "requests (process_event env sid cfg v s) = requests s"
proof -
  obtain r s1 where g: "process_try env sid cfg v s = (r, s1)"
    by (cases "process_try env sid cfg v s")
  then have "requests s1 = requests s"
    using process_try_requests[OF assms, of env v] by simp
  then show ?thesis using g by (simp add: process_event_def split: sum.splits)
qed

lemma poll_tick_gate:
  assumes "rid < length (streams s)" and "s_source (streams s ! rid) = Polling True fs"
    and "shouldFetch (s_config (streams s ! rid)) = Some g"
    and "resolvedBody (s_config (streams s ! rid)) = Inr ctx"
  shows "gate_calls (poll_tick env rid s) =
           gate_calls s @ [(s_owner (streams s ! rid), ctx, fst (g ctx (world s)))]"
    and "fst (g ctx (world s)) \<noteq> Inr True \<Longrightarrow>
           s_source (streams (poll_tick env rid s) ! rid) \<in> {Polling True fs, Polling False fs}"
proof -
  let ?sid = "s_owner (streams s ! rid)" and ?cfg = "s_config (streams s ! rid)"
  obtain r s1 where g: "shouldProcessEvent ?sid ?cfg s = (r, s1)"
    by (cases "shouldProcessEvent ?sid ?cfg s")
  have r: "r = fst (g ctx (world s))"
    and gc: "gate_calls s1 = gate_calls s @ [(?sid, ctx, fst (g ctx (world s)))]"
    using shouldProcessEvent_gate[OF assms(3,4), of ?sid s] g by simp_all
  have st: "streams s1 = streams s"
    using shouldProcessEvent_fields(2)[of ?sid ?cfg s] g by simp
  have pe: "gate_calls (polling_error rid e s1) = gate_calls s1" for e
    by (simp add: polling_error_def)
  have fe: "gate_calls (add_inflight rid x (snd (fetchFn env ?cfg ?sid url s1))) = gate_calls s1"
    for x url
    by (simp add: add_inflight_def split: source.splits)
  show "gate_calls (poll_tick env rid s) = gate_calls s @ [(?sid, ctx, fst (g ctx (world s)))]"
    using g gc pe fe
    by (auto simp: poll_tick_def Let_def split: sum.splits option.splits prod.splits)
       (metis snd_conv)
  have src: "s_source (streams (polling_error rid e s1) ! rid) \<in> {Polling True fs, Polling False fs}"
    for e
    using assms(1,2) st
    by (simp add: polling_error_def subscriber_error_def close_stream_def finalize_def Let_def)
  show "fst (g ctx (world s)) \<noteq> Inr True \<Longrightarrow>
           s_source (streams (poll_tick env rid s) ! rid) \<in> {Polling True fs, Polling False fs}"
    using g r src assms(2) st
    by (auto simp: poll_tick_def Let_def split: sum.splits)
qed

text \<open>
  C10: for a polling stream with a gate (whose \<open>body\<close> resolves), a tick calls the gate
  once and starts a fetch only if that call returned true; when the fetch delivers its
  event, the pipeline calls the gate once more and forwards only if that call returned
  true.
\<close>

theorem poll_gate_evaluated_twice:
  assumes "is_open s rid" and "s_source (streams s ! rid) = Polling True fs"
    and "shouldFetch (s_config (streams s ! rid)) = Some g"
    and "resolvedBody (s_config (streams s ! rid)) = Inr ctx"
  shows "gate_calls (step env (Tick rid) s) =
           gate_calls s @ [(s_owner (streams s ! rid), ctx, fst (g ctx (world s)))] \<and>
         ((\<exists>x. s_source (streams (step env (Tick rid) s) ! rid) = Polling True (fs @ [x])) \<longrightarrow>
            fst (g ctx (world s)) = Inr True) \<and>
         (\<forall>j v. j < length fs \<and> fs ! j = Inr v \<longrightarrow>
            gate_calls (step env (FetchSettles rid j) s) =
              gate_calls s @ [(s_owner (streams s ! rid), ctx, fst (g ctx (world s)))] \<and>
            (requests (step env (FetchSettles rid j) s) \<noteq> requests s \<longrightarrow>
               fst (g ctx (world s)) = Inr True))"
proof -
  let ?sid = "s_owner (streams s ! rid)" and ?cfg = "s_config (streams s ! rid)"
  have r: "rid < length (streams s)" "\<not> s_closed (streams s ! rid)"
    using assms(1) by (simp_all add: is_open_def)
  have tick: "step env (Tick rid) s = poll_tick env rid s"
    using r assms(2) by simp
  have a: "gate_calls (step env (Tick rid) s) =
      gate_calls s @ [(?sid, ctx, fst (g ctx (world s)))]"
    unfolding tick using poll_tick_gate(1)[OF r(1) assms(2,3,4)] .
  have b: "(\<exists>x. s_source (streams (step env (Tick rid) s) ! rid) = Polling True (fs @ [x])) \<longrightarrow>
            fst (g ctx (world s)) = Inr True"
  proof (intro impI, rule ccontr)
    assume ex: "\<exists>x. s_source (streams (step env (Tick rid) s) ! rid) = Polling True (fs @ [x])"
      and ng: "fst (g ctx (world s)) \<noteq> Inr True"
    have "s_source (streams (poll_tick env rid s) ! rid) \<in> {Polling True fs, Polling False fs}"
      using ng by (rule poll_tick_gate(2)[OF r(1) assms(2,3,4)])
    moreover obtain x where "s_source (streams (poll_tick env rid s) ! rid) = Polling True (fs @ [x])"
      using ex unfolding tick by blast
    ultimately show False by simp
  qed
  have c: "gate_calls (step env (FetchSettles rid j) s) =
              gate_calls s @ [(?sid, ctx, fst (g ctx (world s)))] \<and>
            (requests (step env (FetchSettles rid j) s) \<noteq> requests s \<longrightarrow>
               fst (g ctx (world s)) = Inr True)"
    if j: "j < length fs" "fs ! j = Inr v" for j v
  proof -
    let ?s1 = "set_source rid (Polling True (take j fs @ drop (Suc j) fs)) s"
    have s1: "s_owner (streams ?s1 ! rid) = ?sid" "s_config (streams ?s1 ! rid) = ?cfg"
      "\<not> s_closed (streams ?s1 ! rid)" "world ?s1 = world s"
      using r by (simp_all add: set_source_def)
    have settle: "step env (FetchSettles rid j) s = process_event env ?sid ?cfg v ?s1"
      using r assms(2) j s1 by (simp add: poll_settle_def subscriber_next_def Let_def)
    have g1: "fst (shouldProcessEvent ?sid ?cfg ?s1) = fst (g ctx (world s))"
      "gate_calls (snd (shouldProcessEvent ?sid ?cfg ?s1)) =
         gate_calls s @ [(?sid, ctx, fst (g ctx (world s)))]"
      using shouldProcessEvent_gate[OF assms(3,4), of ?sid ?s1] s1(4) by simp_all
    have "gate_calls (step env (FetchSettles rid j) s) =
        gate_calls s @ [(?sid, ctx, fst (g ctx (world s)))]"
      unfolding settle by (simp add: process_event_gate_calls g1)
    moreover have "fst (g ctx (world s)) \<noteq> Inr True \<Longrightarrow>
        requests (step env (FetchSettles rid j) s) = requests s"
      unfolding settle using process_event_requests[of ?sid ?cfg ?s1 env v] g1(1) by simp
    ultimately show ?thesis by blast
  qed
  from a b c show ?thesis by blast
qed

section \<open>The examples, evaluated\<close>




theorem pipeline_error_is_caught_witness:
  "is_open (run ex_env [CallSubscribe ''c'' ((ex_custom ResolvesObservable)\<lparr>transform := Some ex_throwing\<rparr>),
                        FactorySettles 0] (init 0)) 1 \<and>
   console (run ex_env [CallSubscribe ''c'' ((ex_custom ResolvesObservable)\<lparr>transform := Some ex_throwing\<rparr>),
                        FactorySettles 0, Emit 1 Null] (init 0))
     = [Failure ''c'' ''Error processing data:'' (Error ''cannot transform'')] \<and>
   is_open (run ex_env [CallSubscribe ''c'' ((ex_custom ResolvesObservable)\<lparr>transform := Some ex_throwing\<rparr>),
                        FactorySettles 0, Emit 1 Null] (init 0)) 1 \<and>
   map (req_url) (requests (run ex_env [CallSubscribe ''c'' ((ex_custom ResolvesObservable)\<lparr>transform := Some ex_throwing\<rparr>),
                        FactorySettles 0, Emit 1 Null, Emit 1 (JNum 7)] (init 0))) = [''http://hook'']"
proof -
  let ?cfg = "(ex_custom ResolvesObservable)\<lparr>transform := Some ex_throwing\<rparr>"
  let ?s = "run ex_env [CallSubscribe ''c'' ?cfg, FactorySettles 0] (init 0)"
  have o: "is_open ?s 1"
    by (simp add: ex_defs model_defs)
  have st: "s_owner (streams ?s ! 1) = ''c''" "s_config (streams ?s ! 1) = ?cfg"
    "s_source (streams ?s ! 1) = Custom"
    by (simp_all add: ex_defs model_defs)
  have e1: "run ex_env [CallSubscribe ''c'' ?cfg, FactorySettles 0, Emit 1 Null] (init 0)
      = subscriber_next ex_env 1 Null ?s"
    using o st(3) by simp
  have pt: "process_try ex_env ''c'' ?cfg Null ?s = (Inl (Error ''cannot transform''), ?s)"
    by (simp add: ex_defs model_defs)
  have c0: "console ?s = []"
    by (simp add: ex_defs model_defs)
  have rq: "map (req_url) (requests (run ex_env [CallSubscribe ''c'' ?cfg, FactorySettles 0,
               Emit 1 Null, Emit 1 (JNum 7)] (init 0))) = [''http://hook'']"
    by (simp add: ex_defs model_defs)
  from pipeline_error_is_caught[OF o, of ex_env Null] pt st c0
  have "console (subscriber_next ex_env 1 Null ?s)
          = [Failure ''c'' ''Error processing data:'' (Error ''cannot transform'')]"
    and "is_open (subscriber_next ex_env 1 Null ?s) 1"
    by simp_all
  then show ?thesis using o rq unfolding e1 by simp
qed

theorem poll_fetch_failure_counterexample:
  "world (run ex_flaky_env [CallSubscribe ''p'' ex_poll, Tick 0, Tick 0, Tick 0] (init 0)) = 3 \<and>
   s_source (streams (run ex_flaky_env [CallSubscribe ''p'' ex_poll, Tick 0] (init 0)) ! 0)
     = Polling True [Inl (HttpError 500 ''/'' ''{}'')] \<and>
   \<not> is_open (run ex_flaky_env [CallSubscribe ''p'' ex_poll, Tick 0, FetchSettles 0 0] (init 0)) 0 \<and>
   world (run ex_flaky_env [CallSubscribe ''p'' ex_poll, Tick 0, FetchSettles 0 0, Tick 0, Tick 0]
            (init 0)) = 1 \<and>
   length (requests (run ex_flaky_env [CallSubscribe ''p'' ex_poll, Tick 0, FetchSettles 0 0,
                                       Tick 0, Tick 0] (init 0))) = 1"
  by (simp add: ex_defs model_defs)

theorem poll_fetch_failure_ends_stream_witness:
  "is_open (run ex_flaky_env [CallSubscribe ''p'' ex_poll, Tick 0] (init 0)) 0 \<and>
   s_source (streams (run ex_flaky_env [CallSubscribe ''p'' ex_poll, Tick 0] (init 0)) ! 0)
     = Polling True [Inl (HttpError 500 ''/'' ''{}'')] \<and>
   console (step ex_flaky_env (FetchSettles 0 0)
              (run ex_flaky_env [CallSubscribe ''p'' ex_poll, Tick 0] (init 0)))
     = [Failure ''p'' ''Polling error:'' (HttpError 500 ''/'' ''{}''),
        Failure ''p'' ''Stream error:'' (HttpError 500 ''/'' ''{}'')] \<and>
   \<not> is_open (step ex_flaky_env (FetchSettles 0 0)
                (run ex_flaky_env [CallSubscribe ''p'' ex_poll, Tick 0] (init 0))) 0 \<and>
   step ex_flaky_env (Tick 0)
     (run ex_flaky_env [Tick 0, CallUnsubscribe ''q'']
        (step ex_flaky_env (FetchSettles 0 0)
           (run ex_flaky_env [CallSubscribe ''p'' ex_poll, Tick 0] (init 0))))
   = run ex_flaky_env [Tick 0, CallUnsubscribe ''q'']
       (step ex_flaky_env (FetchSettles 0 0)
          (run ex_flaky_env [CallSubscribe ''p'' ex_poll, Tick 0] (init 0)))"
proof -
  let ?s = "run ex_flaky_env [CallSubscribe ''p'' ex_poll, Tick 0] (init 0)"
  have o: "is_open ?s 0"
    by (simp add: ex_defs model_defs)
  have src: "s_source (streams ?s ! 0) = Polling True [Inl (HttpError 500 ''/'' ''{}'')]"
    by (simp add: ex_defs model_defs)
  have j: "0 < length [Inl (HttpError 500 ''/'' ''{}'') :: error + jsval]"
    "[Inl (HttpError 500 ''/'' ''{}'') :: error + jsval] ! 0 = Inl (HttpError 500 ''/'' ''{}'')"
    by simp_all
  have c: "console ?s = []" "s_owner (streams ?s ! 0) = ''p''"
    by (simp_all add: ex_defs model_defs)
  note t = poll_fetch_failure_ends_stream[OF o src j, of ex_flaky_env, unfolded c append_Nil]
  have a: "console (step ex_flaky_env (FetchSettles 0 0) ?s)
      = [Failure ''p'' ''Polling error:'' (HttpError 500 ''/'' ''{}''),
         Failure ''p'' ''Stream error:'' (HttpError 500 ''/'' ''{}'')]"
    by (rule conjunct1[OF t])
  have b: "\<not> is_open (step ex_flaky_env (FetchSettles 0 0) ?s) 0"
    by (rule conjunct1[OF conjunct2[OF t]])
  have d: "step ex_flaky_env (Tick 0)
     (run ex_flaky_env [Tick 0, CallUnsubscribe ''q''] (step ex_flaky_env (FetchSettles 0 0) ?s))
   = run ex_flaky_env [Tick 0, CallUnsubscribe ''q''] (step ex_flaky_env (FetchSettles 0 0) ?s)"
    using t by blast
  show ?thesis
    using o src a b d by (simp only: simp_thms)
qed



theorem malformed_frame_counterexample:
  "length (requests (run ex_env [CallSubscribe ''w'' ex_socket, SocketMessage 0 ''good''] (init 0))) = 1 \<and>
   requests (run ex_env [CallSubscribe ''w'' ex_socket, SocketMessage 0 ''bad'',
                         SocketMessage 0 ''good''] (init 0)) = [] \<and>
   s_source (streams (run ex_env [CallSubscribe ''w'' ex_socket, SocketMessage 0 ''bad''] (init 0)) ! 0)
     = WebSocket False 1 \<and>
   requests (run ex_env [CallSubscribe ''w'' ex_socket, SocketMessage 0 ''null'',
                         SocketMessage 0 ''good''] (init 0)) = [] \<and>
   console (run ex_env [CallSubscribe ''w'' ex_socket, SocketMessage 0 ''null''] (init 0))
     = [Failure ''w'' ''WebSocket parse error:'' (Error ''Invalid input data''),
        Failure ''w'' ''WebSocket error:'' (Error ''Invalid input data''),
        Retrying ''w'' 1]"
  by (simp add: ex_defs model_defs)

theorem malformed_frame_fails_socket_stream_witness:
  "is_open (run ex_env [CallSubscribe ''w'' ex_socket] (init 0)) 0 \<and>
   s_source (streams (run ex_env [CallSubscribe ''w'' ex_socket] (init 0)) ! 0) = WebSocket True 0 \<and>
   JSON_parse ex_env ''bad'' = Inl (Error ''SyntaxError'') \<and>
   requests (step ex_env (SocketMessage 0 ''bad'')
      (run ex_env [CallSubscribe ''w'' ex_socket] (init 0))) = [] \<and>
   s_source (streams (step ex_env (SocketMessage 0 ''bad'')
      (run ex_env [CallSubscribe ''w'' ex_socket] (init 0))) ! 0) = WebSocket False (Suc 0) \<and>
   step ex_env (SocketMessage 0 ''good'') (step ex_env (SocketMessage 0 ''bad'')
      (run ex_env [CallSubscribe ''w'' ex_socket] (init 0)))
     = step ex_env (SocketMessage 0 ''bad'') (run ex_env [CallSubscribe ''w'' ex_socket] (init 0))"
proof -
  let ?s = "run ex_env [CallSubscribe ''w'' ex_socket] (init 0)"
  have o: "is_open ?s 0"
    by (simp add: ex_defs model_defs)
  have src: "s_source (streams ?s ! 0) = WebSocket True 0"
    by (simp add: ex_defs model_defs)
  have p: "JSON_parse ex_env ''bad'' = Inl (Error ''SyntaxError'')"
    by (simp add: ex_defs)
  have rq: "requests ?s = []"
    by (simp add: ex_defs model_defs)
  note t = malformed_frame_fails_socket_stream[OF o src disjI1[OF p]]
  have a: "requests (step ex_env (SocketMessage 0 ''bad'') ?s) = requests ?s"
    by (rule conjunct1[OF conjunct2[OF t]])
  have b: "s_source (streams (step ex_env (SocketMessage 0 ''bad'') ?s) ! 0) = WebSocket False (Suc 0)"
    by (rule conjunct1[OF conjunct2[OF conjunct2[OF conjunct2[OF t]]]])
  have c: "step ex_env (SocketMessage 0 ''good'') (step ex_env (SocketMessage 0 ''bad'') ?s)
      = step ex_env (SocketMessage 0 ''bad'') ?s"
    using conjunct2[OF conjunct2[OF conjunct2[OF conjunct2[OF t]]]] by blast
  show ?thesis
    using o src p a b c by (simp only: rq simp_thms)
qed

text \<open>
  C5, the code at a connection error: \<open>retry\<close> logs attempt 1 and sets the 5000 ms timer
  of its notifier; when the timer fires the notifier completes without having emitted,
  so \<open>retry\<close> completes the stream. No reconnection is made (the trace has no
  \<open>Reconnect\<close>) and the \<open>error\<close> callback of \<open>subscribe\<close> is not called (the console has
  no \<open>Stream error:\<close>).
\<close>

theorem socket_error_completes_without_retry:
  "s_closed (streams (run ex_env [CallSubscribe ''w'' ex_socket, SocketError 0 (Error ''boom''),
                                  RetryTimeout 0] (init 0)) ! 0) \<and>
   trace (run ex_env [CallSubscribe ''w'' ex_socket, SocketError 0 (Error ''boom''),
                      RetryTimeout 0] (init 0)) = [Start ''w'' 0, TimerSet 0 5000] \<and>
   console (run ex_env [CallSubscribe ''w'' ex_socket, SocketError 0 (Error ''boom''),
                        RetryTimeout 0] (init 0))
     = [Failure ''w'' ''WebSocket error:'' (Error ''boom''), Retrying ''w'' 1] \<and>
   run ex_env [CallSubscribe ''w'' ex_socket, SocketError 0 (Error ''boom''), RetryTimeout 0,
               SocketMessage 0 ''good''] (init 0)
     = run ex_env [CallSubscribe ''w'' ex_socket, SocketError 0 (Error ''boom''),
                   RetryTimeout 0] (init 0)"
  by (simp add: ex_defs model_defs)

text \<open>
  C8, the code at a \<open>body\<close> that is the number 0: the body resolves to 0, but the gate is
  called with \<open>undefined\<close>; the gate of the example, which lets an event pass when its
  context is defined, drops the event.
\<close>

theorem gate_context_of_falsy_body:
  "await (Value (JNum 0)) = Inr (JNum 0) \<and>
   gate_calls (run ex_env
      [CallSubscribe ''c'' ((ex_custom ResolvesObservable)
          \<lparr>requestConfig := Some \<lparr>method = None, headers = None, body = Some (Value (JNum 0))\<rparr>,
           shouldFetch := Some ex_defined\<rparr>),
       FactorySettles 0, Emit 1 (JObj [])] (init 0))
     = [(''c'', Undefined, Inr False)] \<and>
   requests (run ex_env
      [CallSubscribe ''c'' ((ex_custom ResolvesObservable)
          \<lparr>requestConfig := Some \<lparr>method = None, headers = None, body = Some (Value (JNum 0))\<rparr>,
           shouldFetch := Some ex_defined\<rparr>),
       FactorySettles 0, Emit 1 (JObj [])] (init 0)) = []"
  by (simp add: ex_defs model_defs)

theorem poll_gate_evaluated_twice_witness:
  "is_open (run ex_env [CallSubscribe ''p'' (ex_poll\<lparr>shouldFetch := Some ex_first_only\<rparr>),
                        Tick 0] (init 0)) 0 \<and>
   s_source (streams (run ex_env [CallSubscribe ''p'' (ex_poll\<lparr>shouldFetch := Some ex_first_only\<rparr>),
                        Tick 0] (init 0)) ! 0) = Polling True [Inr (JObj [])] \<and>
   gate_calls (run ex_env [CallSubscribe ''p'' (ex_poll\<lparr>shouldFetch := Some ex_first_only\<rparr>),
                        Tick 0] (init 0)) = [(''p'', Undefined, Inr True)] \<and>
   gate_calls (step ex_env (FetchSettles 0 0)
       (run ex_env [CallSubscribe ''p'' (ex_poll\<lparr>shouldFetch := Some ex_first_only\<rparr>),
                        Tick 0] (init 0)))
     = [(''p'', Undefined, Inr True), (''p'', Undefined, Inr False)] \<and>
   requests (step ex_env (FetchSettles 0 0)
       (run ex_env [CallSubscribe ''p'' (ex_poll\<lparr>shouldFetch := Some ex_first_only\<rparr>),
                        Tick 0] (init 0)))
     = requests (run ex_env [CallSubscribe ''p'' (ex_poll\<lparr>shouldFetch := Some ex_first_only\<rparr>),
                        Tick 0] (init 0))"
proof -
  let ?cfg = "ex_poll\<lparr>shouldFetch := Some ex_first_only\<rparr>"
  let ?s = "run ex_env [CallSubscribe ''p'' ?cfg, Tick 0] (init 0)"
  have o: "is_open ?s 0"
    by (simp add: ex_defs model_defs)
  have src: "s_source (streams ?s ! 0) = Polling True [Inr (JObj [])]"
    by (simp add: ex_defs model_defs)
  have st: "s_config (streams ?s ! 0) = ?cfg" "s_owner (streams ?s ! 0) = ''p''"
    "world ?s = 1" "gate_calls ?s = [(''p'', Undefined, Inr True)]"
    by (simp_all add: ex_defs model_defs)
  have g: "shouldFetch (s_config (streams ?s ! 0)) = Some ex_first_only"
    unfolding st(1) by (simp add: ex_defs)
  have b: "resolvedBody (s_config (streams ?s ! 0)) = Inr Undefined"
    unfolding st(1) by (simp add: ex_defs resolvedBody_def)
  have r: "fst (ex_first_only Undefined (world ?s)) = Inr False"
    unfolding st(3) by (simp add: ex_defs)
  have j: "0 < length [Inr (JObj []) :: error + jsval] \<and>
           [Inr (JObj []) :: error + jsval] ! 0 = Inr (JObj [])"
    by simp
  show ?thesis
    using poll_gate_evaluated_twice[OF o src g b, of ex_env] o src st(2,4) r j
    by (simp del: step.simps run.simps)
qed

section \<open>The context of the gate, and reconnection\<close>

text \<open>What the gate is called with, and what a gate that returns false leaves.\<close>

lemma resolvedBody_cases:
  "resolvedBody cfg =
     (case requestConfig cfg of
        None \<Rightarrow> Inr Undefined
      | Some rc \<Rightarrow>
          (case body rc of
             None \<Rightarrow> Inr Undefined
           | Some (Promise r) \<Rightarrow> r
           | Some (Value v) \<Rightarrow> if truthy v then Inr v else Inr Undefined))"
  by (simp add: resolvedBody_def split: option.splits promised.splits)

lemma gate_receives_body_not_event:
  assumes "shouldFetch cfg = Some g" and "resolvedBody cfg = Inr ctx"
  shows "gate_calls (process_event env sid cfg v s) =
           gate_calls s @ [(sid, ctx, fst (g ctx (world s)))]"
  using shouldProcessEvent_gate[OF assms, of sid s] by (simp add: process_event_gate_calls)

lemma gate_false_drops_event:
  assumes "shouldFetch cfg = Some g" and "resolvedBody cfg = Inr ctx"
    and "fst (g ctx (world s)) = Inr False"
  shows "requests (process_event env sid cfg v s) = requests s \<and>
         console (process_event env sid cfg v s) =
           console s @ [Info sid ''Skipping event processing based on shouldFetch condition'',
                        Info sid ''Skipping process based on shouldFetch condition'']"
proof -
  obtain w where g: "g ctx (world s) = (Inr False, w)"
    using assms(3) by (cases "g ctx (world s)") simp
  show ?thesis
    using assms(1,2) g
    by (simp add: process_event_def process_try_def shouldProcessEvent_def Let_def)
qed

text \<open>
  A connection error on an open socket stream, followed by the timer of the notifier: the
  stream is closed by completion; the console has the error and the announced attempt,
  and no \<open>Stream error:\<close>.
\<close>

lemma socket_error_then_timeout:
  assumes "is_open s rid" and "s_source (streams s ! rid) = WebSocket True n"
    and "n < retry_count"
  shows "\<not> is_open (run env [SocketError rid e, RetryTimeout rid] s) rid \<and>
         console (run env [SocketError rid e, RetryTimeout rid] s) =
           console s @ [Failure (s_owner (streams s ! rid)) ''WebSocket error:'' e,
                        Retrying (s_owner (streams s ! rid)) (Suc n)] \<and>
         trace (run env [SocketError rid e, RetryTimeout rid] s) =
           trace s @ [TimerSet rid 5000]"
  using assms
  by (simp add: is_open_def socket_error_def retry_notified_def delay_notifier_def
      subscriber_complete_def close_stream_def finalize_def set_source_def console_error_def
      Let_def)

text \<open>No step of a forwarder reconnects a socket.\<close>

lemma no_reconnect_refl [simp]: "no_reconnect s s"
  by (simp add: no_reconnect_def)

lemma no_reconnect_trans: "no_reconnect s t \<Longrightarrow> no_reconnect t u \<Longrightarrow> no_reconnect s u"
  by (fastforce simp: no_reconnect_def)

lemma no_reconnect_same: "trace t = trace s \<Longrightarrow> no_reconnect s t"
  by (simp add: no_reconnect_def)

lemma no_reconnect_unsubscribe [simp]: "no_reconnect s (unsubscribe k s)"
  by (simp add: no_reconnect_def trace_unsubscribe split: option.splits)

lemma no_reconnect_fold_unsubscribe [simp]: "no_reconnect s (fold unsubscribe ks s)"
proof (induction ks arbitrary: s)
  case Nil
  then show ?case by simp
next
  case (Cons k ks)
  have "no_reconnect s (unsubscribe k s)" by simp
  then show ?case using Cons.IH[of "unsubscribe k s"] no_reconnect_trans by fastforce
qed

lemma no_reconnect_subscribe [simp]: "no_reconnect s (snd (subscribe env sid cfg s))"
proof -
  have c: "no_reconnect s (cleaned sid s)"
    using no_reconnect_unsubscribe[of "console_log sid ''Cleaning up existing subscription before resubscribing'' s" sid]
    by (simp add: cleaned_def no_reconnect_def)
  have "no_reconnect (cleaned sid s) (snd (subscribe env sid cfg s))"
    by (cases rule: subscribe_cases[of env sid cfg s]) (simp_all add: no_reconnect_def)
  with c show ?thesis by (rule no_reconnect_trans)
qed

lemma poll_tick_trace [simp]: "trace (poll_tick env rid s) = trace s"
proof -
  let ?sid = "s_owner (streams s ! rid)" and ?cfg = "s_config (streams s ! rid)"
  obtain r s1 where g: "shouldProcessEvent ?sid ?cfg s = (r, s1)"
    by (cases "shouldProcessEvent ?sid ?cfg s")
  have t1: "trace s1 = trace s"
    using shouldProcessEvent_fields(3)[of ?sid ?cfg s] g by simp
  have f: "trace (add_inflight rid x (snd (fetchFn env ?cfg ?sid url s1))) = trace s1" for x url
    by (simp add: add_inflight_def split: source.splits)
  have p: "trace (polling_error rid e s1) = trace s1" for e
    by (simp add: polling_error_def)
  show ?thesis
    using g t1 f p
    by (auto simp: poll_tick_def Let_def split: sum.splits option.splits prod.splits)
       (metis snd_conv)
qed

lemma poll_settle_trace [simp]: "trace (poll_settle env rid j s) = trace s"
  by (simp add: poll_settle_def polling_error_def Let_def split: source.splits sum.splits)

lemma no_reconnect_socket_error [simp]: "no_reconnect s (socket_error rid e s)"
  by (simp add: socket_error_def no_reconnect_def Let_def split: source.splits)

lemma retry_notified_trace [simp]: "trace (retry_notified rid s) = trace s"
  by (simp add: retry_notified_def delay_notifier_def split: source.splits)

lemma no_reconnect_socket_message [simp]: "no_reconnect s (socket_message env rid msg s)"
proof -
  let ?sid = "s_owner (streams s ! rid)"
  obtain r s1 where d: "deserializer env ?sid msg s = (r, s1)"
    by (cases "deserializer env ?sid msg s")
  have t1: "trace s1 = trace s"
    using deserializer_fields(3)[of env ?sid msg s] d by simp
  have "no_reconnect s1 (socket_error rid e s1)" for e by simp
  then have "no_reconnect s (socket_error rid e s1)" for e
    using t1 by (simp add: no_reconnect_def)
  moreover have "no_reconnect s (subscriber_next env rid v s1)" for v
    using t1 by (simp add: no_reconnect_def)
  ultimately show ?thesis using d by (simp add: socket_message_def split: sum.splits)
qed

lemma no_reconnect_factory_settles [simp]: "no_reconnect s (factory_settles rid s)"
  by (simp add: factory_settles_def no_reconnect_def Let_def
      split: source.splits option.splits factory_result.splits)

lemma no_reconnect_step [simp]: "no_reconnect s (step env a s)"
  by (cases a)
     (simp_all add: unsubscribeAll_def no_reconnect_same split: source.splits bool.splits)

lemma no_reconnect_run [simp]: "no_reconnect s (run env as s)"
proof (induction as arbitrary: s)
  case Nil
  then show ?case by simp
next
  case (Cons a as)
  have "no_reconnect s (step env a s)" by simp
  then show ?case using Cons.IH[of "step env a s"] no_reconnect_trans by fastforce
qed

lemma socket_never_reconnects: "Reconnect r \<notin> set (trace (run env as (init w)))"
proof -
  obtain es where "trace (run env as (init w)) = trace (init w) @ es"
    "\<forall>e \<in> set es. \<not> is_reconnect e"
    using no_reconnect_run[of "init w" env as] by (auto simp: no_reconnect_def)
  then show ?thesis by (auto simp: init_def)
qed

section \<open>A gate that is true once\<close>

lemma gated_inv_start: "gated_inv (snd (subscribe ex_env ''p'' ex_gated (init 0)))"
  by (auto simp: gated_inv_def ex_gated_def ex_defs model_defs)

lemma gated_inv_close:
  assumes "gated_inv s"
  shows "gated_inv (subscriber_complete rid s)"
proof -
  from assms obtain c t fs where s:
    "streams s = [\<lparr>s_owner = ''p'', s_config = ex_gated, s_closed = c, s_source = Polling t fs\<rparr>]"
    "fs \<noteq> [] \<longrightarrow> 0 < world s" "\<forall>rq \<in> set (requests s). req_method rq = ''GET''"
    unfolding gated_inv_def by blast
  show ?thesis
  proof (cases rid)
    case 0
    then show ?thesis
      using s unfolding gated_inv_def
      by (auto simp: subscriber_complete_def close_stream_def finalize_def)
  next
    case (Suc n)
    then show ?thesis
      using s assms unfolding gated_inv_def
      by (auto simp: subscriber_complete_def close_stream_def finalize_def)
  qed
qed

lemma gated_inv_unsubscribe: "gated_inv s \<Longrightarrow> gated_inv (unsubscribe k s)"
proof -
  assume a: "gated_inv s"
  have "gated_inv (subscriber_complete rid s)" for rid using a by (rule gated_inv_close)
  then have b: "gated_inv ((subscriber_complete rid s)\<lparr>trace := tr, subs := sb\<rparr>)" for rid tr sb
    by (simp add: gated_inv_def)
  have c: "gated_inv (s\<lparr>trace := tr, subs := sb\<rparr>)" for tr sb
    using a by (simp add: gated_inv_def)
  show ?thesis
    using a b c by (simp add: unsubscribe_def Let_def split: option.splits handle.splits)
qed

lemma gated_inv_fold_unsubscribe: "gated_inv s \<Longrightarrow> gated_inv (fold unsubscribe ks s)"
  by (induction ks arbitrary: s) (simp_all add: gated_inv_unsubscribe)

lemma gated_inv_tick:
  assumes "gated_inv s"
  shows "gated_inv (poll_tick ex_env 0 s)"
proof -
  from assms obtain c t fs where s:
    "streams s = [\<lparr>s_owner = ''p'', s_config = ex_gated, s_closed = c, s_source = Polling t fs\<rparr>]"
    "fs \<noteq> [] \<longrightarrow> 0 < world s" "\<forall>rq \<in> set (requests s). req_method rq = ''GET''"
    unfolding gated_inv_def by blast
  show ?thesis
    using s unfolding gated_inv_def
    by (auto simp: ex_gated_def ex_defs model_defs)
qed

lemma gated_inv_settle:
  assumes "gated_inv s"
  shows "gated_inv (poll_settle ex_env 0 j s)"
proof -
  from assms obtain c t fs where s:
    "streams s = [\<lparr>s_owner = ''p'', s_config = ex_gated, s_closed = c, s_source = Polling t fs\<rparr>]"
    "fs \<noteq> [] \<longrightarrow> 0 < world s" "\<forall>rq \<in> set (requests s). req_method rq = ''GET''"
    unfolding gated_inv_def by blast
  show ?thesis
  proof (cases "j < length fs")
    case False
    then show ?thesis using s assms by (simp add: poll_settle_def)
  next
    case True
    then have w: "0 < world s" using s(2) by auto
    show ?thesis
      using s True w unfolding gated_inv_def
      by (auto simp: ex_gated_def ex_defs model_defs split: sum.splits)
  qed
qed

lemma gated_inv_step:
  assumes "gated_inv s" and "\<not> is_call_subscribe a"
  shows "gated_inv (step ex_env a s)"
proof -
  from assms(1) obtain c t fs where s:
    "streams s = [\<lparr>s_owner = ''p'', s_config = ex_gated, s_closed = c, s_source = Polling t fs\<rparr>]"
    unfolding gated_inv_def by blast
  have src: "rid < length (streams s) \<Longrightarrow> s_source (streams s ! rid) = Polling t fs" for rid
    using s by simp
  have zero: "rid < length (streams s) \<Longrightarrow> rid = 0" for rid
    using s by simp
  show ?thesis
  proof (cases a)
    case (CallSubscribe sid cfg)
    then show ?thesis using assms(2) by simp
  next
    case (CallUnsubscribe sid)
    then show ?thesis using assms(1) by (simp add: gated_inv_unsubscribe)
  next
    case CallUnsubscribeAll
    then show ?thesis using assms(1) by (simp add: unsubscribeAll_def gated_inv_fold_unsubscribe)
  next
    case (Tick rid)
    then show ?thesis
      using assms(1) zero[of rid] gated_inv_tick[OF assms(1)]
      by (auto split: source.splits bool.splits)
  next
    case (FetchSettles rid j)
    then show ?thesis
      using assms(1) zero[of rid] gated_inv_settle[OF assms(1), of j] by auto
  next
    case (FactorySettles rid)
    then show ?thesis
      using assms(1) src[of rid] by (simp add: factory_settles_def)
  qed (use assms(1) src in \<open>simp_all add: is_open_def\<close>)
qed

lemma gated_inv_run:
  "gated_inv s \<Longrightarrow> \<forall>a \<in> set as. \<not> is_call_subscribe a \<Longrightarrow> gated_inv (run ex_env as s)"
  by (induction as arbitrary: s) (simp_all add: gated_inv_step)

text \<open>
  With a gate that is true on its first call only, a polling subscription never forwards
  an event, whatever the order in which ticks fire and fetches settle: the first call is
  the one of a tick, and the call of the pipeline comes after it.
\<close>

theorem first_call_only_gate_never_forwards:
  assumes "\<forall>a \<in> set as. \<not> is_call_subscribe a"
  shows "\<forall>rq \<in> set (requests (run ex_env (CallSubscribe ''p'' ex_gated # as) (init 0))).
           req_method rq \<noteq> ''POST''"
proof -
  have "gated_inv (run ex_env as (snd (subscribe ex_env ''p'' ex_gated (init 0))))"
    using gated_inv_start assms by (rule gated_inv_run)
  then show ?thesis by (auto simp: gated_inv_def)
qed

end
